theory Spec2Isabelle
  imports Main "HOL-Library.Extended_Nat" "HOL-Library.AList"
begin

section \<open>Data model of the crossword CSP (generate.py)\<close>

text \<open>
  Python exceptions the solver can raise: a missing dictionary key or a missing
  set element (\<open>KeyError\<close>), a string index out of range (\<open>IndexError\<close>), and
  unpacking \<open>None\<close> as a pair (\<open>TypeError\<close>).
\<close>

datatype error = KeyError | IndexError | TypeError

datatype direction = ACROSS | DOWN

text \<open>
  A \<open>Variable\<close> of the crossword: starting row \<open>i\<close>, starting column \<open>j\<close>,
  direction and length (the attributes the solver reads).
\<close>

record variable =
  var_i :: nat
  var_j :: nat
  var_direction :: direction
  var_length :: nat

text \<open>
  The \<open>Crossword\<close> object the creator is built on. Its class comes from the
  module \<open>crossword\<close> that \<open>generate.py\<close> imports; the solver reads three
  attributes of it: the set \<open>variables\<close>, the set \<open>words\<close>, and the dictionary
  \<open>overlaps\<close> subscripted by a pair of variables, whose entry is \<open>None\<close> or a
  pair of indices. Python sets are modelled as duplicate-free lists, the list
  order being the iteration order; a set difference keeps the order of its
  left operand.
\<close>

record crossword =
  variables :: "variable list"
  words :: "string list"
  overlaps :: "(variable \<times> variable) \<rightharpoonup> (nat \<times> nat) option"

text \<open>
  Modelled from the spec: \<open>neighbors(slot)\<close>, a method of the absent
  \<open>Crossword\<close> class, is "the set of all slots overlapping a given slot": the
  other variables whose overlap entry with the slot is a pair of indices.
\<close>

definition neighbors :: "crossword \<Rightarrow> variable \<Rightarrow> variable list" where
  "neighbors cw var =
     filter (\<lambda>v. v \<noteq> var \<and>
                 (case overlaps cw (v, var) of Some (Some p) \<Rightarrow> True | _ \<Rightarrow> False))
       (variables cw)"

text \<open>\<open>self.domains\<close>: a dictionary from variables to sets of words.\<close>

type_synonym domains = "variable \<rightharpoonup> string list"

text \<open>An assignment: a dictionary from variables to words, in insertion order.\<close>

type_synonym assignment = "(variable \<times> string) list"

text \<open>\<open>word[k]\<close> on a string, for a non-negative index.\<close>

definition getitem :: "string \<Rightarrow> nat \<Rightarrow> error + char" where
  "getitem w k = (if k < length w then Inr (w ! k) else Inl IndexError)"

section \<open>Domain initialisation and node consistency\<close>

text \<open>\<open>__init__\<close>: every variable is mapped to a copy of the word set.\<close>

definition init_domains :: "crossword \<Rightarrow> domains" where
  "init_domains cw = (\<lambda>v. if v \<in> set (variables cw) then Some (words cw) else None)"

text \<open>
  The inner loop of \<open>enforce_node_consistency\<close> for one variable:
  \<open>self.domains[var].remove(word)\<close> for every word of the crossword whose length
  differs from the variable's. \<open>set.remove\<close> raises \<open>KeyError\<close> when the word is
  not in the set.
\<close>

fun remove_wrong_length :: "domains \<Rightarrow> variable \<Rightarrow> string list \<Rightarrow> error + domains" where
  "remove_wrong_length d var [] = Inr d"
| "remove_wrong_length d var (word # ws) =
     (if length word \<noteq> var_length var then
        (case d var of
           None \<Rightarrow> Inl KeyError
         | Some dv \<Rightarrow>
             if word \<in> set dv then remove_wrong_length (d(var \<mapsto> removeAll word dv)) var ws
             else Inl KeyError)
      else remove_wrong_length d var ws)"

fun node_consistency_loop :: "crossword \<Rightarrow> domains \<Rightarrow> variable list \<Rightarrow> error + domains" where
  "node_consistency_loop cw d [] = Inr d"
| "node_consistency_loop cw d (var # vs) =
     (case remove_wrong_length d var (words cw) of
        Inl e \<Rightarrow> Inl e
      | Inr d' \<Rightarrow> node_consistency_loop cw d' vs)"

definition enforce_node_consistency :: "crossword \<Rightarrow> domains \<Rightarrow> error + domains" where
  "enforce_node_consistency cw d = node_consistency_loop cw d (variables cw)"

section \<open>Arc consistency\<close>

text \<open>
  \<open>any(word_x[i] == word_y[j] for word_y in self.domains[y])\<close>: the generator
  stops at the first match; an index out of range raises before that.
\<close>

fun any_match :: "string \<Rightarrow> nat \<Rightarrow> nat \<Rightarrow> string list \<Rightarrow> error + bool" where
  "any_match word_x i j [] = Inr False"
| "any_match word_x i j (word_y # rest) =
     (case getitem word_x i of
        Inl e \<Rightarrow> Inl e
      | Inr a \<Rightarrow>
          (case getitem word_y j of
             Inl e \<Rightarrow> Inl e
           | Inr b \<Rightarrow> if a = b then Inr True else any_match word_x i j rest))"

text \<open>
  The loop of \<open>revise\<close> over a copy of \<open>self.domains[x]\<close>, collecting
  \<open>words_remove\<close>; \<open>self.domains[y]\<close> is looked up in every iteration.
\<close>

fun words_remove_loop ::
  "domains \<Rightarrow> variable \<Rightarrow> nat \<Rightarrow> nat \<Rightarrow> string list \<Rightarrow> error + string list" where
  "words_remove_loop d y i j [] = Inr []"
| "words_remove_loop d y i j (word_x # rest) =
     (case d y of
        None \<Rightarrow> Inl KeyError
      | Some dy \<Rightarrow>
          (case any_match word_x i j dy of
             Inl e \<Rightarrow> Inl e
           | Inr m \<Rightarrow>
               (case words_remove_loop d y i j rest of
                  Inl e \<Rightarrow> Inl e
                | Inr r \<Rightarrow> Inr (if m then r else word_x # r))))"

definition revise :: "crossword \<Rightarrow> domains \<Rightarrow> variable \<Rightarrow> variable \<Rightarrow> error + (bool \<times> domains)" where
  "revise cw d x y =
     (case overlaps cw (x, y) of
        None \<Rightarrow> Inl KeyError
      | Some None \<Rightarrow> Inr (False, d)
      | Some (Some (i, j)) \<Rightarrow>
          (case d x of
             None \<Rightarrow> Inl KeyError
           | Some dx \<Rightarrow>
               (case words_remove_loop d y i j dx of
                  Inl e \<Rightarrow> Inl e
                | Inr words_remove \<Rightarrow>
                    if words_remove \<noteq> [] then
                      Inr (True, d(x \<mapsto> filter (\<lambda>w. w \<notin> set words_remove) dx))
                    else Inr (False, d))))"

text \<open>The initial queue of \<open>ac3\<close> when \<open>arcs\<close> is \<open>None\<close>.\<close>

definition all_arcs :: "crossword \<Rightarrow> (variable \<times> variable) list" where
  "all_arcs cw = concat (map (\<lambda>x. map (\<lambda>y. (x, y)) (neighbors cw x)) (variables cw))"

text \<open>Number of words in a variable's domain; used to measure the work queue loop.\<close>

definition dsize :: "domains \<Rightarrow> variable \<Rightarrow> nat" where
  "dsize d v = (case d v of None \<Rightarrow> 0 | Some ws \<Rightarrow> length ws)"

definition store_size :: "crossword \<Rightarrow> domains \<Rightarrow> (variable \<times> variable) list \<Rightarrow> nat" where
  "store_size cw d queue = sum (dsize d) (fst ` set queue \<union> set (variables cw))"

lemma words_remove_loop_subset:
  "words_remove_loop d y i j dx = Inr r \<Longrightarrow> set r \<subseteq> set dx"
  by (induction dx arbitrary: r) (auto split: option.splits sum.splits if_splits)

lemma length_filter_less_ex:
  "w \<in> set xs \<Longrightarrow> \<not> P w \<Longrightarrow> length (filter P xs) < length xs"
  by (induction xs) (auto simp: less_Suc_eq_le)

lemma revise_True_dsize:
  assumes "revise cw d x y = Inr (True, d')"
  shows "dsize d' x < dsize d x \<and> (\<forall>z. z \<noteq> x \<longrightarrow> d' z = d z)"
proof -
  from assms obtain i j dx r where
    dx: "d x = Some dx" and r: "words_remove_loop d y i j dx = Inr r" and ne: "r \<noteq> []"
    and d': "d' = d(x \<mapsto> filter (\<lambda>w. w \<notin> set r) dx)"
    by (auto simp: revise_def split: option.splits sum.splits if_splits)
  from ne obtain w where w: "w \<in> set r" by (cases r) auto
  with words_remove_loop_subset[OF r] have "w \<in> set dx" by auto
  with w have "length (filter (\<lambda>w. w \<notin> set r) dx) < length dx"
    by (intro length_filter_less_ex[of w]) auto
  with dx d' show ?thesis by (simp add: dsize_def)
qed

lemma revise_False_same:
  "revise cw d x y = Inr (False, d') \<Longrightarrow> d' = d"
  by (auto simp: revise_def split: option.splits sum.splits if_splits)

lemma store_size_revised:
  assumes "revise cw d x y = Inr (True, d')"
    and "set new \<subseteq> set (variables cw)"
  shows "store_size cw d' (rest @ map (\<lambda>z. (z, x)) new) < store_size cw d ((x, y) # rest)"
proof -
  let ?S' = "fst ` set (rest @ map (\<lambda>z. (z, x)) new) \<union> set (variables cw)"
  let ?S = "fst ` set ((x, y) # rest) \<union> set (variables cw)"
  from revise_True_dsize[OF assms(1)]
  have lt: "dsize d' x < dsize d x" and same: "\<And>z. z \<noteq> x \<Longrightarrow> dsize d' z = dsize d z"
    by (auto simp: dsize_def)
  have sub: "?S' \<subseteq> ?S" using assms(2) by auto
  have fin: "finite ?S" by simp
  have "sum (dsize d') ?S' \<le> sum (dsize d') ?S"
    by (rule sum_mono2[OF fin sub]) simp
  also have "\<dots> < sum (dsize d) ?S"
  proof (rule sum_strict_mono_ex1[OF fin])
    show "\<forall>v\<in>?S. dsize d' v \<le> dsize d v"
      using lt same by (metis less_imp_le order_refl)
    show "\<exists>v\<in>?S. dsize d' v < dsize d v" using lt by auto
  qed
  finally show ?thesis by (simp add: store_size_def)
qed

lemma store_size_rest:
  "store_size cw d rest \<le> store_size cw d ((x, y) # rest)"
  unfolding store_size_def by (rule sum_mono2) auto

text \<open>
  The \<open>while csp_queue\<close> loop of \<open>ac3\<close>: pop the first arc, revise it, fail when
  the revised domain is empty, otherwise append the arcs \<open>(z, x)\<close> for the
  neighbours \<open>z\<close> of \<open>x\<close> other than \<open>y\<close>.
\<close>

function ac3_loop ::
  "crossword \<Rightarrow> domains \<Rightarrow> (variable \<times> variable) list \<Rightarrow> error + (bool \<times> domains)" where
  "ac3_loop cw d [] = Inr (True, d)"
| "ac3_loop cw d ((x, y) # csp_queue) =
     (case revise cw d x y of
        Inl e \<Rightarrow> Inl e
      | Inr (revised, d') \<Rightarrow>
          if revised then
            (case d' x of
               None \<Rightarrow> Inl KeyError
             | Some dx \<Rightarrow>
                 if dx = [] then Inr (False, d')
                 else ac3_loop cw d'
                        (csp_queue @ map (\<lambda>z. (z, x)) (filter (\<lambda>z. z \<noteq> y) (neighbors cw x))))
          else ac3_loop cw d' csp_queue)"
  by pat_completeness auto
termination
proof (relation "(\<lambda>(cw, d, q). store_size cw d q) <*mlex*> measure (\<lambda>(cw, d, q). length q)")
  show "wf ((\<lambda>(cw, d, q). store_size cw d q) <*mlex*> measure (\<lambda>(cw, d, q). length q))"
    by (simp add: wf_mlex)
next
  fix cw d x y csp_queue x2 revised d' dx
  assume "revise cw d x y = Inr x2" "(revised, d') = x2" "revised"
  then have "revise cw d x y = Inr (True, d')" by auto
  then have "store_size cw d' (csp_queue @ map (\<lambda>z. (z, x)) (filter (\<lambda>z. z \<noteq> y) (neighbors cw x)))
      < store_size cw d ((x, y) # csp_queue)"
    by (rule store_size_revised) (auto simp: neighbors_def)
  then show "((cw, d', csp_queue @ map (\<lambda>z. (z, x)) (filter (\<lambda>z. z \<noteq> y) (neighbors cw x))),
        cw, d, (x, y) # csp_queue)
       \<in> (\<lambda>(cw, d, q). store_size cw d q) <*mlex*> measure (\<lambda>(cw, d, q). length q)"
    by (simp add: mlex_less)
next
  fix cw d x y csp_queue x2 revised d'
  assume "revise cw d x y = Inr x2" "(revised, d') = x2" "\<not> revised"
  then have "revise cw d x y = Inr (False, d')" by auto
  then have "d' = d" by (rule revise_False_same)
  then show "((cw, d', csp_queue), cw, d, (x, y) # csp_queue)
       \<in> (\<lambda>(cw, d, q). store_size cw d q) <*mlex*> measure (\<lambda>(cw, d, q). length q)"
    using store_size_rest[of cw d csp_queue x y] by (auto intro!: mlex_leq)
qed

definition ac3 ::
  "crossword \<Rightarrow> domains \<Rightarrow> (variable \<times> variable) list option \<Rightarrow> error + (bool \<times> domains)" where
  "ac3 cw d arcs = ac3_loop cw d (case arcs of None \<Rightarrow> all_arcs cw | Some a \<Rightarrow> a)"

section \<open>Search\<close>

text \<open>
  \<open>assignment_complete\<close>: every variable is a key of the assignment and its word
  is not the empty string.
\<close>

definition assignment_complete :: "crossword \<Rightarrow> assignment \<Rightarrow> bool" where
  "assignment_complete cw a =
     list_all (\<lambda>var. case map_of a var of None \<Rightarrow> False | Some w \<Rightarrow> w \<noteq> []) (variables cw)"

text \<open>
  The inner loop of \<open>consistent\<close> over the neighbours of \<open>var_x\<close>: for an
  assigned neighbour the overlap entry is unpacked as a pair (a \<open>TypeError\<close> when
  it is \<open>None\<close>) and the two characters are compared.
\<close>

fun check_neighbors ::
  "crossword \<Rightarrow> assignment \<Rightarrow> variable \<Rightarrow> string \<Rightarrow> variable list \<Rightarrow> error + bool" where
  "check_neighbors cw a var_x word_x [] = Inr True"
| "check_neighbors cw a var_x word_x (var_y # rest) =
     (case map_of a var_y of
        None \<Rightarrow> check_neighbors cw a var_x word_x rest
      | Some word_y \<Rightarrow>
          (case overlaps cw (var_x, var_y) of
             None \<Rightarrow> Inl KeyError
           | Some None \<Rightarrow> Inl TypeError
           | Some (Some (i, j)) \<Rightarrow>
               (case getitem word_x i of
                  Inl e \<Rightarrow> Inl e
                | Inr a1 \<Rightarrow>
                    (case getitem word_y j of
                       Inl e \<Rightarrow> Inl e
                     | Inr a2 \<Rightarrow>
                         if a1 \<noteq> a2 then Inr False
                         else check_neighbors cw a var_x word_x rest))))"

fun consistent_loop :: "crossword \<Rightarrow> assignment \<Rightarrow> assignment \<Rightarrow> error + bool" where
  "consistent_loop cw a [] = Inr True"
| "consistent_loop cw a ((var_x, word_x) # rest) =
     (if var_length var_x \<noteq> length word_x then Inr False
      else
        (case check_neighbors cw a var_x word_x (neighbors cw var_x) of
           Inl e \<Rightarrow> Inl e
         | Inr ok \<Rightarrow> if ok then consistent_loop cw a rest else Inr False))"

definition consistent :: "crossword \<Rightarrow> assignment \<Rightarrow> error + bool" where
  "consistent cw a = consistent_loop cw a a"

text \<open>
  \<open>order_domain_values\<close>: for every word of the variable's domain, the number
  of words of the unassigned neighbours' domains that differ at the overlap
  (the three nested loops), then a stable sort by that number.
\<close>

fun count_word_n :: "string \<Rightarrow> nat \<Rightarrow> nat \<Rightarrow> string list \<Rightarrow> nat \<Rightarrow> error + nat" where
  "count_word_n word i j [] c = Inr c"
| "count_word_n word i j (word_n # rest) c =
     (case getitem word i of
        Inl e \<Rightarrow> Inl e
      | Inr a1 \<Rightarrow>
          (case getitem word_n j of
             Inl e \<Rightarrow> Inl e
           | Inr a2 \<Rightarrow> count_word_n word i j rest (if a1 \<noteq> a2 then c + 1 else c)))"

fun count_neighbors ::
  "crossword \<Rightarrow> domains \<Rightarrow> variable \<Rightarrow> string \<Rightarrow> variable list \<Rightarrow> nat \<Rightarrow> error + nat" where
  "count_neighbors cw d var word [] c = Inr c"
| "count_neighbors cw d var word (n # rest) c =
     (case overlaps cw (var, n) of
        None \<Rightarrow> Inl KeyError
      | Some None \<Rightarrow> Inl TypeError
      | Some (Some (i, j)) \<Rightarrow>
          (case d n of
             None \<Rightarrow> Inl KeyError
           | Some dn \<Rightarrow>
               (case count_word_n word i j dn c of
                  Inl e \<Rightarrow> Inl e
                | Inr c' \<Rightarrow> count_neighbors cw d var word rest c')))"

fun value_heuristic_loop ::
  "crossword \<Rightarrow> domains \<Rightarrow> variable \<Rightarrow> variable list \<Rightarrow> string list \<Rightarrow> error + (string \<times> nat) list" where
  "value_heuristic_loop cw d var ns [] = Inr []"
| "value_heuristic_loop cw d var ns (word # rest) =
     (case count_neighbors cw d var word ns 0 of
        Inl e \<Rightarrow> Inl e
      | Inr c \<Rightarrow>
          (case value_heuristic_loop cw d var ns rest of
             Inl e \<Rightarrow> Inl e
           | Inr hs \<Rightarrow> Inr ((word, c) # hs)))"

definition order_domain_values ::
  "crossword \<Rightarrow> domains \<Rightarrow> variable \<Rightarrow> assignment \<Rightarrow> error + string list" where
  "order_domain_values cw d var a =
     (case d var of
        None \<Rightarrow> Inl KeyError
      | Some dv \<Rightarrow>
          (case value_heuristic_loop cw d var
                  (filter (\<lambda>n. n \<notin> fst ` set a) (neighbors cw var)) dv of
             Inl e \<Rightarrow> Inl e
           | Inr value_heuristic \<Rightarrow> Inr (map fst (sort_key snd value_heuristic))))"

text \<open>
  \<open>select_unassigned_variable\<close>: the loop over \<open>variables - set(assignment)\<close>
  carries \<open>unassigned_var\<close> (initially \<open>None\<close>), \<open>min_num_var\<close> (initially
  infinity) and \<open>max_degree\<close> (initially \<open>-1\<close>).
\<close>

fun select_loop ::
  "crossword \<Rightarrow> domains \<Rightarrow> variable list \<Rightarrow> variable option \<Rightarrow> enat \<Rightarrow> int \<Rightarrow> error + variable option" where
  "select_loop cw d [] unassigned_var min_num_var max_degree = Inr unassigned_var"
| "select_loop cw d (var # rest) unassigned_var min_num_var max_degree =
     (case d var of
        None \<Rightarrow> Inl KeyError
      | Some dv \<Rightarrow>
          (let num_var = enat (length dv);
               degree = int (length (neighbors cw var))
           in if num_var < min_num_var \<or> (num_var = min_num_var \<and> degree > max_degree)
              then select_loop cw d rest (Some var) num_var degree
              else select_loop cw d rest unassigned_var min_num_var max_degree))"

text \<open>
  \<open>self.crossword.variables - set(assignment)\<close>. Python does not fix the order
  in which the new set is iterated; the model takes the order of \<open>variables\<close>.
  Only which variable wins among those tied on both domain size and degree
  depends on that order.
\<close>

definition unassigned :: "crossword \<Rightarrow> assignment \<Rightarrow> variable list" where
  "unassigned cw a = filter (\<lambda>v. v \<notin> fst ` set a) (variables cw)"

definition select_unassigned_variable ::
  "crossword \<Rightarrow> domains \<Rightarrow> assignment \<Rightarrow> error + variable option" where
  "select_unassigned_variable cw d a = select_loop cw d (unassigned cw a) None \<infinity> (- 1)"

text \<open>
  What \<open>backtrack\<close> returns: an assignment or \<open>None\<close>. The test
  \<open>result is not False\<close> of the source holds for both, since neither is the
  object \<open>False\<close>.
\<close>

datatype result = Assignment assignment | NoneResult

fun is_not_False :: "result \<Rightarrow> bool" where
  "is_not_False (Assignment a) = True"
| "is_not_False NoneResult = True"

text \<open>
  The unassigned variables shrink with every tentative assignment; this is what
  bounds the recursion of \<open>backtrack\<close>.
\<close>

lemma select_loop_Some:
  "select_loop cw d vs u m g = Inr (Some var) \<Longrightarrow> var \<in> set vs \<or> u = Some var"
  by (induction vs arbitrary: u m g) (auto split: option.splits if_splits simp: Let_def)

lemma select_unassigned:
  "select_unassigned_variable cw d a = Inr (Some var) \<Longrightarrow> var \<in> set (unassigned cw a)"
  unfolding select_unassigned_variable_def by (drule select_loop_Some) simp

lemma unassigned_update:
  "unassigned cw (AList.update var v a) = filter (\<lambda>u. u \<noteq> var) (unassigned cw a)"
  by (auto simp: unassigned_def dom_update intro: filter_cong)

text \<open>
  \<open>backtrack\<close>, with the \<open>for value in order_domain_values(...)\<close> loop as
  \<open>try_values\<close>. The domains are the object's state: \<open>ac3\<close> updates them and
  nothing puts them back. \<open>new_assignment\<close> is a copy, so the assignment of
  the caller is the one of the loop throughout.
\<close>

function backtrack :: "crossword \<Rightarrow> domains \<Rightarrow> assignment \<Rightarrow> error + (result \<times> domains)"
  and try_values ::
    "crossword \<Rightarrow> domains \<Rightarrow> assignment \<Rightarrow> variable \<Rightarrow> string list \<Rightarrow> error + (result \<times> domains)"
where
  "backtrack cw d a =
     (if assignment_complete cw a then Inr (Assignment a, d)
      else
        (case select_unassigned_variable cw d a of
           Inl e \<Rightarrow> Inl e
         | Inr None \<Rightarrow> Inl KeyError
         | Inr (Some var) \<Rightarrow>
             (case order_domain_values cw d var a of
                Inl e \<Rightarrow> Inl e
              | Inr vals \<Rightarrow> try_values cw d a var vals)))"
| "try_values cw d a var [] = Inr (NoneResult, d)"
| "try_values cw d a var (val # rest) =
     (case consistent cw (AList.update var val a) of
        Inl e \<Rightarrow> Inl e
      | Inr ok \<Rightarrow>
          if ok then
            (case ac3 cw d (Some (map (\<lambda>n. (var, n)) (neighbors cw var))) of
               Inl e \<Rightarrow> Inl e
             | Inr (inference, d') \<Rightarrow>
                 if inference then
                   (case backtrack cw d' (AList.update var val a) of
                      Inl e \<Rightarrow> Inl e
                    | Inr (res, d'') \<Rightarrow>
                        if is_not_False res then Inr (res, d'')
                        else try_values cw d'' a var rest)
                 else try_values cw d' a var rest)
          else try_values cw d a var rest)"
  by pat_completeness auto
termination
  apply (relation "measures [
     (\<lambda>s. case s of Inl (cw, d, a) \<Rightarrow> length (unassigned cw a)
                   | Inr (cw, d, a, var, vals) \<Rightarrow> length (filter (\<lambda>u. u \<noteq> var) (unassigned cw a))),
     (\<lambda>s. case s of Inl _ \<Rightarrow> 0 | Inr _ \<Rightarrow> 1),
     (\<lambda>s. case s of Inl _ \<Rightarrow> 0 | Inr (cw, d, a, var, vals) \<Rightarrow> length vals)]")
  apply (simp_all add: unassigned_update)
  apply (rule length_filter_less_ex, erule select_unassigned, simp)
  done

declare backtrack.simps [simp del]

text \<open>
  \<open>solve\<close>: node consistency, then \<open>ac3\<close> on all arcs, whose boolean result is
  dropped, then \<open>backtrack\<close> from the empty assignment.
\<close>

definition solve_from :: "crossword \<Rightarrow> domains \<Rightarrow> error + (result \<times> domains)" where
  "solve_from cw d =
     (case enforce_node_consistency cw d of
        Inl e \<Rightarrow> Inl e
      | Inr d1 \<Rightarrow>
          (case ac3 cw d1 None of
             Inl e \<Rightarrow> Inl e
           | Inr (inference, d2) \<Rightarrow> backtrack cw d2 []))"

definition solve :: "crossword \<Rightarrow> error + (result \<times> domains)" where
  "solve cw = solve_from cw (init_domains cw)"

section \<open>Concrete crosswords\<close>

text \<open>
  Two slots of length 3 that share a cell: the last cell of the across slot is
  the first cell of the down slot. The word list is \<open>cat\<close>, \<open>top\<close>.
\<close>

definition slotA :: variable where
  "slotA = \<lparr>var_i = 0, var_j = 0, var_direction = ACROSS, var_length = 3\<rparr>"

definition slotB :: variable where
  "slotB = \<lparr>var_i = 0, var_j = 2, var_direction = DOWN, var_length = 3\<rparr>"

definition two_slots :: crossword where
  "two_slots = \<lparr>variables = [slotA, slotB], words = [''cat'', ''top''],
     overlaps = [(slotA, slotB) \<mapsto> Some (2, 0), (slotB, slotA) \<mapsto> Some (0, 2)]\<rparr>"

text \<open>
  Three slots on a grid of five rows and three columns: an across slot of
  length 3 in the first row, a down slot of length 4 from its first cell and a
  down slot of length 5 from its last cell. The two down slots do not meet.
\<close>

definition slotX :: variable where
  "slotX = \<lparr>var_i = 0, var_j = 0, var_direction = DOWN, var_length = 4\<rparr>"

definition slotY :: variable where
  "slotY = \<lparr>var_i = 0, var_j = 0, var_direction = ACROSS, var_length = 3\<rparr>"

definition slotZ :: variable where
  "slotZ = \<lparr>var_i = 0, var_j = 2, var_direction = DOWN, var_length = 5\<rparr>"

definition three_slots :: crossword where
  "three_slots = \<lparr>variables = [slotX, slotY, slotZ],
     words = [''arc'', ''ape'', ''bed'', ''fed'', ''acid'', ''blue'', ''fire'',
              ''crane'', ''eagle'', ''dream''],
     overlaps = [(slotX, slotY) \<mapsto> Some (0, 0), (slotY, slotX) \<mapsto> Some (0, 0),
                 (slotY, slotZ) \<mapsto> Some (2, 0), (slotZ, slotY) \<mapsto> Some (0, 2),
                 (slotX, slotZ) \<mapsto> None, (slotZ, slotX) \<mapsto> None]\<rparr>"

text \<open>The three-slot crossword with its two sets iterated in the reverse order.\<close>

definition three_slots_rev :: crossword where
  "three_slots_rev = three_slots\<lparr>variables := [slotZ, slotY, slotX],
     words := [''dream'', ''eagle'', ''crane'', ''fire'', ''blue'', ''acid'',
               ''fed'', ''bed'', ''ape'', ''arc'']\<rparr>"

lemmas slot_defs = slotA_def slotB_def slotX_def slotY_def slotZ_def

text \<open>One slot of length 3 and a word list with a word of another length.\<close>

definition one_slot :: crossword where
  "one_slot = \<lparr>variables = [slotA], words = [''cat'', ''to''], overlaps = Map.empty\<rparr>"

text \<open>The two-slot crossword with its two sets iterated in the other order.\<close>

definition two_slots_rev :: crossword where
  "two_slots_rev = two_slots\<lparr>variables := [slotB, slotA], words := [''top'', ''cat'']\<rparr>"

text \<open>
  The two slots with the words \<open>cat\<close> and \<open>dog\<close>, and a store in which each
  slot has one of them left.
\<close>

definition cat_dog :: crossword where
  "cat_dog = two_slots\<lparr>words := [''cat'', ''dog'']\<rparr>"

definition cat_dog_store :: domains where
  "cat_dog_store = [slotA \<mapsto> [''cat''], slotB \<mapsto> [''dog'']]"

section \<open>Notions used to state the properties\<close>

text \<open>What a caller sees of a run: the returned value, or the error raised.\<close>

definition returned :: "error + ('a \<times> domains) \<Rightarrow> error + 'a" where
  "returned r = (case r of Inl e \<Rightarrow> Inl e | Inr (res, d) \<Rightarrow> Inr res)"

text \<open>The returned value together with the domains of the crossword's variables.\<close>

definition outcome ::
  "crossword \<Rightarrow> error + ('a \<times> domains) \<Rightarrow> error + ('a \<times> string list option list)" where
  "outcome cw r =
     (case r of Inl e \<Rightarrow> Inl e | Inr (res, d) \<Rightarrow> Inr (res, map d (variables cw)))"

text \<open>The store in which every variable has exactly the words of its length.\<close>

definition node_consistent :: "crossword \<Rightarrow> domains" where
  "node_consistent cw =
     (\<lambda>v. if v \<in> set (variables cw)
          then Some (filter (\<lambda>w. length w = var_length v) (words cw)) else None)"

text \<open>\<open>enforce_node_consistency\<close> called twice in succession.\<close>

definition enforce_twice :: "crossword \<Rightarrow> domains \<Rightarrow> error + domains" where
  "enforce_twice cw d =
     (case enforce_node_consistency cw d of
        Inl e \<Rightarrow> Inl e
      | Inr d1 \<Rightarrow> enforce_node_consistency cw d1)"

text \<open>
  \<open>var\<close> is at least as good a choice as \<open>u\<close>: fewer remaining values, or as
  many and at least as many neighbours.
\<close>

definition preferred :: "crossword \<Rightarrow> domains \<Rightarrow> variable \<Rightarrow> variable \<Rightarrow> bool" where
  "preferred cw d var u \<longleftrightarrow>
     dsize d var < dsize d u \<or>
     (dsize d var = dsize d u \<and> length (neighbors cw u) \<le> length (neighbors cw var))"

text \<open>Every domain of \<open>d'\<close> is a subset of the same variable's domain in \<open>d\<close>.\<close>

definition shrinks :: "domains \<Rightarrow> domains \<Rightarrow> bool" where
  "shrinks d' d \<longleftrightarrow>
     (\<forall>v. case d v of None \<Rightarrow> d' v = None
          | Some dv \<Rightarrow> (case d' v of None \<Rightarrow> False | Some dv' \<Rightarrow> set dv' \<subseteq> set dv))"

text \<open>
  A well-formed crossword, as the structure parser delivers it: no variable and
  no word twice, every variable of positive length, and for every two distinct
  variables an overlap entry, which is \<open>None\<close> in both directions or a pair of
  indices within the two lengths, mirrored in the other direction.
\<close>

definition wf_crossword :: "crossword \<Rightarrow> bool" where
  "wf_crossword cw \<longleftrightarrow>
     distinct (variables cw) \<and> distinct (words cw) \<and>
     (\<forall>x\<in>set (variables cw). 0 < var_length x) \<and>
     (\<forall>x\<in>set (variables cw). \<forall>y\<in>set (variables cw). x \<noteq> y \<longrightarrow>
        (case overlaps cw (x, y) of
           None \<Rightarrow> False
         | Some None \<Rightarrow> overlaps cw (y, x) = Some None
         | Some (Some (i, j)) \<Rightarrow>
             i < var_length x \<and> j < var_length y \<and> overlaps cw (y, x) = Some (Some (j, i))))"

text \<open>Every variable has a domain, of words of the variable's length.\<close>

definition store_ok :: "crossword \<Rightarrow> domains \<Rightarrow> bool" where
  "store_ok cw d \<longleftrightarrow>
     (\<forall>v\<in>set (variables cw).
        case d v of None \<Rightarrow> False | Some dv \<Rightarrow> \<forall>w\<in>set dv. length w = var_length v)"

text \<open>A queue of arcs between distinct variables of the crossword.\<close>

definition arcs_ok :: "crossword \<Rightarrow> (variable \<times> variable) list \<Rightarrow> bool" where
  "arcs_ok cw q \<longleftrightarrow>
     (\<forall>(x, y)\<in>set q. x \<in> set (variables cw) \<and> y \<in> set (variables cw) \<and> x \<noteq> y)"

text \<open>\<open>revise(x, y)\<close> would return \<open>False\<close>: the arc is consistent.\<close>

definition no_revision :: "crossword \<Rightarrow> domains \<Rightarrow> variable \<Rightarrow> variable \<Rightarrow> bool" where
  "no_revision cw d x y \<longleftrightarrow>
     (case revise cw d x y of Inl e \<Rightarrow> False | Inr (revised, d') \<Rightarrow> \<not> revised)"

text \<open>Every arc from a variable to one of its neighbours is consistent.\<close>

definition arc_consistent :: "crossword \<Rightarrow> domains \<Rightarrow> bool" where
  "arc_consistent cw d \<longleftrightarrow>
     (\<forall>x\<in>set (variables cw). \<forall>y\<in>set (neighbors cw x). no_revision cw d x y)"

text \<open>Every arc that is not in the queue is consistent.\<close>
definition pending :: "crossword \<Rightarrow> domains \<Rightarrow> (variable \<times> variable) list \<Rightarrow> bool" where
  "pending cw d q \<longleftrightarrow>
     (\<forall>x\<in>set (variables cw). \<forall>y\<in>set (neighbors cw x). (x, y) \<in> set q \<or> no_revision cw d x y)"

text \<open>Every assigned variable is one of the crossword's, with a word of its length.\<close>

definition assignment_ok :: "crossword \<Rightarrow> assignment \<Rightarrow> bool" where
  "assignment_ok cw a \<longleftrightarrow>
     (\<forall>(v, w)\<in>set a. v \<in> set (variables cw) \<and> length w = var_length v)"

lemmas solver_defs = solve_def solve_from_def init_domains_def
  enforce_node_consistency_def ac3_def all_arcs_def neighbors_def revise_def getitem_def
  backtrack.simps assignment_complete_def select_unassigned_variable_def unassigned_def
  order_domain_values_def consistent_def Let_def returned_def outcome_def

section \<open>Properties of \<open>revise\<close>\<close>

lemma any_match_in_range:
  "i < length word_x \<Longrightarrow> \<forall>w\<in>set dy. j < length w \<Longrightarrow>
   any_match word_x i j dy = Inr (\<exists>w2\<in>set dy. word_x ! i = w2 ! j)"
  by (induction dy) (auto simp: getitem_def)

lemma words_remove_loop_in_range:
  "d y = Some dy \<Longrightarrow> \<forall>w\<in>set dx. i < length w \<Longrightarrow> \<forall>w\<in>set dy. j < length w \<Longrightarrow>
   words_remove_loop d y i j dx = Inr (filter (\<lambda>w. \<not> (\<exists>w2\<in>set dy. w ! i = w2 ! j)) dx)"
  by (induction dx) (auto simp: any_match_in_range)

lemma filter_in_set_imp:
  "filter (\<lambda>w. w \<in> set xs \<longrightarrow> P w) xs = filter P xs"
  by (rule filter_cong) auto

lemma revise_in_range:
  assumes "overlaps cw (x, y) = Some (Some (i, j))" "d x = Some dx" "d y = Some dy"
    and "\<forall>w\<in>set dx. i < length w" "\<forall>w\<in>set dy. j < length w"
  shows "revise cw d x y =
           Inr (\<exists>w\<in>set dx. \<forall>w2\<in>set dy. w ! i \<noteq> w2 ! j,
                d(x \<mapsto> filter (\<lambda>w. \<exists>w2\<in>set dy. w ! i = w2 ! j) dx))"
proof -
  let ?P = "\<lambda>w. \<exists>w2\<in>set dy. w ! i = w2 ! j"
  have loop: "words_remove_loop d y i j dx = Inr (filter (\<lambda>w. \<not> ?P w) dx)"
    using assms by (simp add: words_remove_loop_in_range)
  show ?thesis
  proof (cases "filter (\<lambda>w. \<not> ?P w) dx = []")
    case True
    then have all: "\<forall>w\<in>set dx. ?P w" by (simp add: filter_empty_conv)
    then have "filter ?P dx = dx" by (simp add: filter_id_conv)
    then have "d(x \<mapsto> filter ?P dx) = d" using assms(2) by (simp add: map_upd_triv)
    moreover have "\<not> (\<exists>w\<in>set dx. \<forall>w2\<in>set dy. w ! i \<noteq> w2 ! j)" using all by blast
    ultimately show ?thesis using assms(1,2) loop True by (simp add: revise_def)
  next
    case False
    then have "\<exists>w\<in>set dx. \<forall>w2\<in>set dy. w ! i \<noteq> w2 ! j"
      by (auto simp: filter_empty_conv)
    then show ?thesis using assms(1,2) loop False
      by (simp add: revise_def filter_in_set_imp)
  qed
qed

text \<open>
  Claim C6. With an overlap \<open>(i, j)\<close> between \<open>x\<close> and \<open>y\<close>, \<open>revise\<close> keeps in
  the domain of \<open>x\<close> exactly the words that agree at position \<open>i\<close> with position
  \<open>j\<close> of some word of the domain of \<open>y\<close>, and returns \<open>True\<close> iff some word of
  the domain of \<open>x\<close> has no such partner, that is, iff a word was removed.
  Without an overlap it returns \<open>False\<close> and the store is the one it was given.
  (Both domains exist and the overlap indices are within their words.)
\<close>

theorem revise_removes_unsupported:
  "(overlaps cw (x, y) = Some None \<longrightarrow> revise cw d x y = Inr (False, d)) \<and>
   (overlaps cw (x, y) = Some (Some (i, j)) \<and> d x = Some dx \<and> d y = Some dy \<and>
      (\<forall>w\<in>set dx. i < length w) \<and> (\<forall>w\<in>set dy. j < length w) \<longrightarrow>
    revise cw d x y =
      Inr (\<exists>w\<in>set dx. \<forall>w2\<in>set dy. w ! i \<noteq> w2 ! j,
           d(x \<mapsto> filter (\<lambda>w. \<exists>w2\<in>set dy. w ! i = w2 ! j) dx)))"
proof (intro conjI impI)
  assume "overlaps cw (x, y) = Some None"
  then show "revise cw d x y = Inr (False, d)" by (simp add: revise_def)
next
  assume "overlaps cw (x, y) = Some (Some (i, j)) \<and> d x = Some dx \<and> d y = Some dy \<and>
      (\<forall>w\<in>set dx. i < length w) \<and> (\<forall>w\<in>set dy. j < length w)"
  then show "revise cw d x y =
      Inr (\<exists>w\<in>set dx. \<forall>w2\<in>set dy. w ! i \<noteq> w2 ! j,
           d(x \<mapsto> filter (\<lambda>w. \<exists>w2\<in>set dy. w ! i = w2 ! j) dx))"
    by (intro revise_in_range) auto
qed

theorem revise_removes_unsupported_witness:
  "revise two_slots (init_domains two_slots) slotA slotB =
     Inr (True, (init_domains two_slots)(slotA \<mapsto> [''cat''])) \<and>
   revise three_slots (init_domains three_slots) slotX slotZ =
     Inr (False, init_domains three_slots)"
  using revise_removes_unsupported[where cw = two_slots and x = slotA and y = slotB
      and d = "init_domains two_slots" and i = 2 and j = 0
      and dx = "[''cat'', ''top'']" and dy = "[''cat'', ''top'']"]
    revise_removes_unsupported[where cw = three_slots and x = slotX and y = slotZ
      and d = "init_domains three_slots"]
  by (simp add: two_slots_def three_slots_def slot_defs init_domains_def)

text \<open>
  Claim C10. A call \<open>revise(x, y)\<close> that returns leaves the domain of every
  variable other than \<open>x\<close> as it was (that of \<open>y\<close> included when \<open>y\<close> is not
  \<open>x\<close>), and the new domain of \<open>x\<close> is a subset of the old one.
\<close>

theorem revise_frame:
  assumes "revise cw d x y = Inr (revised, d')"
  shows "(\<forall>z. z \<noteq> x \<longrightarrow> d' z = d z) \<and>
         (case d x of None \<Rightarrow> d' x = None
          | Some dx \<Rightarrow> \<exists>dx'. d' x = Some dx' \<and> set dx' \<subseteq> set dx)"
  using assms
  by (auto simp: revise_def split: option.splits sum.splits if_splits)

theorem revise_frame_witness:
  "revise two_slots (init_domains two_slots) slotA slotB =
     Inr (True, (init_domains two_slots)(slotA \<mapsto> [''cat''])) \<and>
   ((init_domains two_slots)(slotA \<mapsto> [''cat''])) slotB = init_domains two_slots slotB \<and>
   (\<exists>dx'. ((init_domains two_slots)(slotA \<mapsto> [''cat''])) slotA = Some dx' \<and>
      set dx' \<subseteq> set [''cat'', ''top''])"
proof -
  have run: "revise two_slots (init_domains two_slots) slotA slotB =
     Inr (True, (init_domains two_slots)(slotA \<mapsto> [''cat'']))"
    by (simp add: revise_def two_slots_def slot_defs init_domains_def getitem_def)
  show ?thesis
    using run revise_frame[OF run]
    by (simp add: two_slots_def slot_defs init_domains_def)
qed

section \<open>Node consistency\<close>

lemma remove_wrong_length_first:
  "d var = Some dv \<Longrightarrow> distinct ws \<Longrightarrow> set ws \<subseteq> set dv \<Longrightarrow>
   remove_wrong_length d var ws =
     Inr (d(var \<mapsto> filter (\<lambda>w. w \<in> set ws \<longrightarrow> length w = var_length var) dv))"
proof (induction ws arbitrary: d dv)
  case Nil
  then show ?case by (simp add: map_upd_triv)
next
  case (Cons word ws)
  show ?case
  proof (cases "length word = var_length var")
    case True
    have "filter (\<lambda>w. w \<in> set (word # ws) \<longrightarrow> length w = var_length var) dv
        = filter (\<lambda>w. w \<in> set ws \<longrightarrow> length w = var_length var) dv"
      using True by (intro filter_cong) auto
    with Cons True show ?thesis by simp
  next
    case False
    let ?dv = "removeAll word dv"
    have sub: "set ws \<subseteq> set ?dv" using Cons.prems by auto
    have "filter (\<lambda>w. w \<in> set ws \<longrightarrow> length w = var_length var) ?dv
        = filter (\<lambda>w. w \<in> set (word # ws) \<longrightarrow> length w = var_length var) dv"
      using False by (induction dv) auto
    moreover have "remove_wrong_length (d(var \<mapsto> ?dv)) var ws =
       Inr ((d(var \<mapsto> ?dv))(var \<mapsto> filter (\<lambda>w. w \<in> set ws \<longrightarrow> length w = var_length var) ?dv))"
      using Cons.prems sub by (intro Cons.IH) auto
    ultimately show ?thesis using Cons.prems False by (auto simp: fun_eq_iff)
  qed
qed

lemma node_consistency_loop_first:
  "distinct vs \<Longrightarrow> distinct (words cw) \<Longrightarrow> \<forall>v\<in>set vs. d v = Some (words cw) \<Longrightarrow>
   node_consistency_loop cw d vs =
     Inr (\<lambda>v. if v \<in> set vs then Some (filter (\<lambda>w. length w = var_length v) (words cw))
              else d v)"
proof (induction vs arbitrary: d)
  case Nil
  then show ?case by simp
next
  case (Cons var vs)
  let ?d = "d(var \<mapsto> filter (\<lambda>w. length w = var_length var) (words cw))"
  have "remove_wrong_length d var (words cw) = Inr ?d"
    using Cons.prems remove_wrong_length_first[of d var "words cw" "words cw"]
    by (simp add: filter_in_set_imp)
  moreover have "node_consistency_loop cw ?d vs =
     Inr (\<lambda>v. if v \<in> set vs then Some (filter (\<lambda>w. length w = var_length v) (words cw))
              else ?d v)"
    using Cons.prems by (intro Cons.IH) auto
  ultimately show ?case by (auto simp: fun_eq_iff)
qed

lemma enforce_node_consistency_init:
  "distinct (variables cw) \<Longrightarrow> distinct (words cw) \<Longrightarrow>
   enforce_node_consistency cw (init_domains cw) = Inr (node_consistent cw)"
  unfolding enforce_node_consistency_def
  by (subst node_consistency_loop_first)
     (auto simp: init_domains_def node_consistent_def fun_eq_iff)

lemma remove_wrong_length_again:
  "d var = Some dv \<Longrightarrow> \<forall>w\<in>set dv. length w = var_length var \<Longrightarrow>
   remove_wrong_length d var ws =
     (if \<forall>w\<in>set ws. length w = var_length var then Inr d else Inl KeyError)"
  by (induction ws) auto

lemma node_consistency_loop_again:
  "\<forall>v\<in>set vs. \<exists>dv. d v = Some dv \<and> (\<forall>w\<in>set dv. length w = var_length v) \<Longrightarrow>
   node_consistency_loop cw d vs =
     (if \<forall>v\<in>set vs. \<forall>w\<in>set (words cw). length w = var_length v then Inr d
      else Inl KeyError)"
proof (induction vs)
  case Nil
  then show ?case by simp
next
  case (Cons var vs)
  from Cons.prems obtain dv where "d var = Some dv" "\<forall>w\<in>set dv. length w = var_length var"
    by auto
  then have "remove_wrong_length d var (words cw) =
     (if \<forall>w\<in>set (words cw). length w = var_length var then Inr d else Inl KeyError)"
    by (rule remove_wrong_length_again)
  with Cons show ?case by auto
qed

text \<open>
  Claim C3 as stated fails: a second run of \<open>enforce_node_consistency\<close> calls
  \<open>set.remove\<close> for a word the first run has removed. On one slot of length 3
  with the words \<open>cat\<close> and \<open>to\<close> the first run returns and the second raises
  \<open>KeyError\<close>.
\<close>

theorem enforce_node_consistency_twice_counterexample:
  "\<not> isl (enforce_node_consistency one_slot (init_domains one_slot)) \<and>
   enforce_twice one_slot (init_domains one_slot) = Inl KeyError"
  by (simp add: enforce_twice_def enforce_node_consistency_def one_slot_def init_domains_def slot_defs)

text \<open>
  Claim C3, amended. On the initial store (no variable and no word twice) one run
  returns the store in which every variable has exactly the words of its
  length. A second run on that store returns it unchanged when every word has
  the length of every variable, so that the first run removed nothing, and
  raises \<open>KeyError\<close> otherwise.
\<close>

theorem enforce_node_consistency_second_run:
  assumes "distinct (variables cw)" "distinct (words cw)"
  shows "enforce_node_consistency cw (init_domains cw) = Inr (node_consistent cw) \<and>
         enforce_node_consistency cw (node_consistent cw) =
           (if \<forall>v\<in>set (variables cw). \<forall>w\<in>set (words cw). length w = var_length v
            then Inr (node_consistent cw) else Inl KeyError)"
proof
  show "enforce_node_consistency cw (init_domains cw) = Inr (node_consistent cw)"
    using assms by (rule enforce_node_consistency_init)
  show "enforce_node_consistency cw (node_consistent cw) =
           (if \<forall>v\<in>set (variables cw). \<forall>w\<in>set (words cw). length w = var_length v
            then Inr (node_consistent cw) else Inl KeyError)"
    unfolding enforce_node_consistency_def
    by (rule node_consistency_loop_again) (simp add: node_consistent_def)
qed

theorem enforce_node_consistency_second_run_witness:
  "enforce_node_consistency one_slot (init_domains one_slot) = Inr (node_consistent one_slot) \<and>
   enforce_node_consistency one_slot (node_consistent one_slot) = Inl KeyError \<and>
   enforce_node_consistency two_slots (node_consistent two_slots) = Inr (node_consistent two_slots)"
  using enforce_node_consistency_second_run[of one_slot]
    enforce_node_consistency_second_run[of two_slots]
  by (simp add: one_slot_def two_slots_def slot_defs)

section \<open>Variable selection\<close>

lemma preferred_refl: "preferred cw d v v"
  by (simp add: preferred_def)

lemma preferred_trans: "preferred cw d a b \<Longrightarrow> preferred cw d b c \<Longrightarrow> preferred cw d a c"
  by (auto simp: preferred_def)

lemma preferred_total: "\<not> preferred cw d a b \<Longrightarrow> preferred cw d b a"
  by (auto simp: preferred_def)

lemma select_loop_best:
  "\<forall>v\<in>set vs. d v \<noteq> None \<Longrightarrow>
   \<exists>var. select_loop cw d vs (Some v0) (enat (dsize d v0)) (int (length (neighbors cw v0)))
            = Inr (Some var) \<and>
         var \<in> insert v0 (set vs) \<and> (\<forall>u\<in>insert v0 (set vs). preferred cw d var u)"
proof (induction vs arbitrary: v0)
  case Nil
  then show ?case by (simp add: preferred_refl)
next
  case (Cons v vs)
  from Cons.prems obtain dv where dv: "d v = Some dv" by auto
  then have sz: "dsize d v = length dv" by (simp add: dsize_def)
  show ?case
  proof (cases "dsize d v < dsize d v0 \<or>
       (dsize d v = dsize d v0 \<and> length (neighbors cw v) > length (neighbors cw v0))")
    case True
    then have better: "preferred cw d v v0" by (auto simp: preferred_def)
    from Cons.IH[of v] Cons.prems obtain var where
      var: "select_loop cw d vs (Some v) (enat (dsize d v)) (int (length (neighbors cw v)))
              = Inr (Some var)"
        "var \<in> insert v (set vs)" "\<forall>u\<in>insert v (set vs). preferred cw d var u"
      by auto
    from var(3) better have "preferred cw d var v0" by (blast intro: preferred_trans)
    with var True dv sz show ?thesis by (auto simp: Let_def)
  next
    case False
    then have keep: "preferred cw d v0 v" by (auto simp: preferred_def)
    from Cons.IH[of v0] Cons.prems obtain var where
      var: "select_loop cw d vs (Some v0) (enat (dsize d v0)) (int (length (neighbors cw v0)))
              = Inr (Some var)"
        "var \<in> insert v0 (set vs)" "\<forall>u\<in>insert v0 (set vs). preferred cw d var u"
      by auto
    from var(3) keep have "preferred cw d var v" by (blast intro: preferred_trans)
    with var False dv sz show ?thesis by (auto simp: Let_def)
  qed
qed

lemma select_loop_start:
  assumes "vs \<noteq> []" "\<forall>v\<in>set vs. d v \<noteq> None"
  shows "\<exists>var. select_loop cw d vs None \<infinity> (- 1) = Inr (Some var) \<and>
         var \<in> set vs \<and> (\<forall>u\<in>set vs. preferred cw d var u)"
proof -
  from assms(1) obtain v rest where vs: "vs = v # rest" by (cases vs) auto
  with assms(2) obtain dv where dv: "d v = Some dv" by auto
  then have sz: "dsize d v = length dv" by (simp add: dsize_def)
  have "\<forall>u\<in>set rest. d u \<noteq> None" using assms(2) vs by simp
  from select_loop_best[OF this, of cw v]
  show ?thesis using vs dv sz by (auto simp: Let_def)
qed

lemma select_unassigned_variable_best:
  assumes "unassigned cw a \<noteq> []" "\<forall>v\<in>set (unassigned cw a). d v \<noteq> None"
  shows "\<exists>var. select_unassigned_variable cw d a = Inr (Some var) \<and>
         var \<in> set (unassigned cw a) \<and> (\<forall>u\<in>set (unassigned cw a). preferred cw d var u)"
  unfolding select_unassigned_variable_def using assms by (rule select_loop_start)

text \<open>
  Claim C8. When some variable is unassigned (and every variable has a domain),
  \<open>select_unassigned_variable\<close> returns an unassigned variable whose domain is
  no larger than that of any unassigned variable, and which has at least as many
  neighbours as any unassigned variable with a domain of the same size.
\<close>

theorem select_unassigned_variable_mrv_degree:
  assumes "\<exists>v\<in>set (variables cw). v \<notin> fst ` set a"
    and "\<forall>v\<in>set (variables cw). d v \<noteq> None"
  shows "\<exists>var. select_unassigned_variable cw d a = Inr (Some var) \<and>
           var \<in> set (variables cw) \<and> var \<notin> fst ` set a \<and>
           (\<forall>u\<in>set (variables cw). u \<notin> fst ` set a \<longrightarrow>
              dsize d var \<le> dsize d u \<and>
              (dsize d u = dsize d var \<longrightarrow>
                 length (neighbors cw u) \<le> length (neighbors cw var)))"
proof -
  have "unassigned cw a \<noteq> []" using assms(1) by (auto simp: unassigned_def filter_empty_conv)
  moreover have "\<forall>v\<in>set (unassigned cw a). d v \<noteq> None"
    using assms(2) by (simp add: unassigned_def)
  ultimately obtain var where
    var: "select_unassigned_variable cw d a = Inr (Some var)" "var \<in> set (unassigned cw a)"
      "\<forall>u\<in>set (unassigned cw a). preferred cw d var u"
    using select_unassigned_variable_best by blast
  show ?thesis
  proof (intro exI conjI ballI impI)
    show "select_unassigned_variable cw d a = Inr (Some var)" by (rule var(1))
    show "var \<in> set (variables cw)" "var \<notin> fst ` set a"
      using var(2) by (auto simp: unassigned_def)
  next
    fix u assume "u \<in> set (variables cw)" "u \<notin> fst ` set a"
    then have "preferred cw d var u" using var(3) by (simp add: unassigned_def)
    then show "dsize d var \<le> dsize d u" by (auto simp: preferred_def)
    fix u assume "u \<in> set (variables cw)" "u \<notin> fst ` set a" "dsize d u = dsize d var"
    then have "preferred cw d var u" using var(3) by (simp add: unassigned_def)
    with \<open>dsize d u = dsize d var\<close>
    show "length (neighbors cw u) \<le> length (neighbors cw var)" by (auto simp: preferred_def)
  qed
qed

theorem select_unassigned_variable_mrv_degree_witness:
  "select_unassigned_variable three_slots (init_domains three_slots) [] = Inr (Some slotY) \<and>
   dsize (init_domains three_slots) slotY = dsize (init_domains three_slots) slotX \<and>
   length (neighbors three_slots slotX) < length (neighbors three_slots slotY) \<and>
   select_unassigned_variable three_slots (node_consistent three_slots) [(slotX, ''acid'')]
     = Inr (Some slotZ) \<and>
   dsize (node_consistent three_slots) slotZ < dsize (node_consistent three_slots) slotY"
proof -
  have h1: "\<exists>v\<in>set (variables three_slots). v \<notin> fst ` set []"
    by (auto simp: three_slots_def)
  have h2: "\<forall>v\<in>set (variables three_slots). init_domains three_slots v \<noteq> None"
    by (simp add: init_domains_def)
  have h3: "\<exists>v\<in>set (variables three_slots). v \<notin> fst ` set [(slotX, ''acid'')]"
    by (auto simp: three_slots_def slot_defs)
  have h4: "\<forall>v\<in>set (variables three_slots). node_consistent three_slots v \<noteq> None"
    by (simp add: node_consistent_def)
  show ?thesis
    using select_unassigned_variable_mrv_degree[OF h1 h2]
      select_unassigned_variable_mrv_degree[OF h3 h4]
    by (simp add: solver_defs node_consistent_def dsize_def three_slots_def slot_defs)
qed

section \<open>The solver on the concrete crosswords\<close>

lemma solve_two_slots:
  "outcome two_slots (solve two_slots) =
     Inr (Assignment [(slotA, ''cat''), (slotB, ''top'')], [Some [''cat''], Some [''top'']])"
  by (simp add: solver_defs two_slots_def slot_defs)

text \<open>
  Claim C4. On the two slots of length 3 with the last cell of the first being
  the first cell of the second, and the words \<open>cat\<close> and \<open>top\<close>, \<open>solve\<close> returns
  the assignment of \<open>cat\<close> to the first slot and \<open>top\<close> to the second, in
  either iteration order of the two sets.
\<close>

theorem solve_two_slots_cat_top:
  "returned (solve two_slots) = Inr (Assignment [(slotA, ''cat''), (slotB, ''top'')]) \<and>
   returned (solve two_slots_rev) = Inr (Assignment [(slotB, ''top''), (slotA, ''cat'')])"
  by (simp add: solver_defs two_slots_rev_def two_slots_def slot_defs)

text \<open>
  Claim C1 fails on the code. On the three-slot crossword the assignment
  \<open>acid\<close>, \<open>arc\<close>, \<open>crane\<close> is complete and consistent, yet \<open>solve\<close> returns
  \<open>None\<close>, in either iteration order of the two sets: \<open>backtrack\<close> returns the
  result of the first recursive call whatever it is, as \<open>None is not False\<close>
  holds, and never tries a second value.
\<close>

theorem solve_three_slots_none:
  "outcome three_slots (solve three_slots) =
     Inr (NoneResult,
          [Some [''acid'', ''blue'', ''fire''], Some [''arc'', ''ape'', ''bed'', ''fed''],
           Some [''crane'', ''eagle'', ''dream'']]) \<and>
   returned (solve three_slots_rev) = Inr NoneResult \<and>
   assignment_complete three_slots [(slotX, ''acid''), (slotY, ''arc''), (slotZ, ''crane'')] \<and>
   consistent three_slots [(slotX, ''acid''), (slotY, ''arc''), (slotZ, ''crane'')] = Inr True"
  by (simp add: solver_defs three_slots_rev_def three_slots_def slot_defs)

section \<open>What a returned assignment satisfies\<close>

lemma backtrack_try_values_sound:
  "(backtrack cw d a = Inr (Assignment r, d') \<longrightarrow>
      assignment_complete cw r \<and> (r = a \<or> consistent cw r = Inr True))"
  "(try_values cw d a var vals = Inr (Assignment r, d') \<longrightarrow>
      assignment_complete cw r \<and> consistent cw r = Inr True)"
proof (induction cw d a and cw d a var vals arbitrary: r d' and r d'
       rule: backtrack_try_values.induct)
  case (1 cw d a)
  then show ?case
    by (auto simp: backtrack.simps[of cw d a] split: sum.splits option.splits)
next
  case (2 cw d a var)
  then show ?case by simp
next
  case (3 cw d a var val rest)
  show ?case
  proof
    assume run: "try_values cw d a var (val # rest) = Inr (Assignment r, d')"
    then obtain ok where ok: "consistent cw (AList.update var val a) = Inr ok"
      by (auto split: sum.splits)
    show "assignment_complete cw r \<and> consistent cw r = Inr True"
    proof (cases ok)
      case False
      with run ok have "try_values cw d a var rest = Inr (Assignment r, d')" by simp
      with "3.IH"(4)[OF ok False] show ?thesis by simp
    next
      case True
      with run ok obtain inference d1 where
        ac: "ac3 cw d (Some (map (\<lambda>n. (var, n)) (neighbors cw var))) = Inr (inference, d1)"
        by (auto split: sum.splits)
      show ?thesis
      proof (cases inference)
        case False
        with run ok True ac have "try_values cw d1 a var rest = Inr (Assignment r, d')" by simp
        with "3.IH"(3)[OF ok True ac refl False] show ?thesis by simp
      next
        case inf: True
        with run ok True ac obtain res d2 where
          bt: "backtrack cw d1 (AList.update var val a) = Inr (res, d2)"
          by (auto split: sum.splits)
        have nf: "is_not_False res" by (cases res) auto
        with run ok True ac inf bt have "res = Assignment r" "d2 = d'" by auto
        with bt "3.IH"(1)[OF ok True ac refl inf]
        have "assignment_complete cw r \<and>
              (r = AList.update var val a \<or> consistent cw r = Inr True)" by simp
        with ok True show ?thesis by auto
      qed
    qed
  qed
qed

lemma check_neighbors_True:
  "check_neighbors cw a var_x word_x ns = Inr True \<Longrightarrow> var_y \<in> set ns \<Longrightarrow>
   map_of a var_y = Some word_y \<Longrightarrow>
   \<exists>i j. overlaps cw (var_x, var_y) = Some (Some (i, j)) \<and>
         i < length word_x \<and> j < length word_y \<and> word_x ! i = word_y ! j"
proof (induction ns)
  case Nil
  then show ?case by simp
next
  case (Cons n ns)
  then show ?case
    by (auto simp: getitem_def split: option.splits sum.splits if_splits)
qed

lemma consistent_loop_True:
  "consistent_loop cw a entries = Inr True \<Longrightarrow> (var_x, word_x) \<in> set entries \<Longrightarrow>
   var_length var_x = length word_x \<and>
   check_neighbors cw a var_x word_x (neighbors cw var_x) = Inr True"
proof (induction entries)
  case Nil
  then show ?case by simp
next
  case (Cons e entries)
  obtain v w where e: "e = (v, w)" by (cases e)
  with Cons show ?case
    by (auto split: sum.splits if_splits)
qed

lemma consistent_True:
  assumes "consistent cw a = Inr True" "map_of a x = Some wx"
  shows "var_length x = length wx"
    and "y \<in> set (neighbors cw x) \<Longrightarrow> map_of a y = Some wy \<Longrightarrow>
         \<exists>i j. overlaps cw (x, y) = Some (Some (i, j)) \<and>
           i < length wx \<and> j < length wy \<and> wx ! i = wy ! j"
proof -
  from assms(2) have "(x, wx) \<in> set a" by (rule map_of_SomeD)
  with assms(1) have *: "var_length x = length wx \<and>
      check_neighbors cw a x wx (neighbors cw x) = Inr True"
    unfolding consistent_def by (rule consistent_loop_True)
  then show "var_length x = length wx" by simp
  assume "y \<in> set (neighbors cw x)" "map_of a y = Some wy"
  with * show "\<exists>i j. overlaps cw (x, y) = Some (Some (i, j)) \<and>
           i < length wx \<and> j < length wy \<and> wx ! i = wy ! j"
    by (blast intro: check_neighbors_True)
qed

lemma assignment_complete_lookup:
  "assignment_complete cw r \<Longrightarrow> v \<in> set (variables cw) \<Longrightarrow> \<exists>w. map_of r v = Some w \<and> w \<noteq> []"
  by (auto simp: assignment_complete_def list_all_iff split: option.splits)

lemma neighbors_iff:
  "y \<in> set (neighbors cw x) \<longleftrightarrow>
     y \<in> set (variables cw) \<and> y \<noteq> x \<and> (\<exists>p. overlaps cw (y, x) = Some (Some p))"
  by (auto simp: neighbors_def split: option.splits)

text \<open>
  Claim C5. An assignment returned by \<open>solve\<close> gives every variable a word of
  the variable's length, and for every two distinct variables with an overlap
  \<open>(i, j)\<close> the two words agree there: position \<open>i\<close> of the first word is
  position \<open>j\<close> of the second.
\<close>

theorem solve_complete_consistent:
  assumes "solve cw = Inr (Assignment r, d')"
  shows "(\<forall>v\<in>set (variables cw). \<exists>w. map_of r v = Some w \<and> length w = var_length v) \<and>
         (\<forall>x\<in>set (variables cw). \<forall>y\<in>set (variables cw). \<forall>i j.
            x \<noteq> y \<and> overlaps cw (x, y) = Some (Some (i, j)) \<longrightarrow>
            (\<exists>wx wy. map_of r x = Some wx \<and> map_of r y = Some wy \<and>
               i < length wx \<and> j < length wy \<and> wx ! i = wy ! j))"
proof -
  from assms obtain d2 where bt: "backtrack cw d2 [] = Inr (Assignment r, d')"
    by (auto simp: solve_def solve_from_def split: sum.splits)
  with backtrack_try_values_sound(1)[of cw d2 "[]" r d']
  have compl: "assignment_complete cw r" and cons: "r = [] \<or> consistent cw r = Inr True"
    by auto
  have cons': "consistent cw r = Inr True"
    using cons by (auto simp: consistent_def)
  show ?thesis
  proof (intro conjI ballI allI impI)
    fix v assume "v \<in> set (variables cw)"
    with compl obtain w where "map_of r v = Some w" by (blast dest: assignment_complete_lookup)
    with consistent_True(1)[OF cons' this] show "\<exists>w. map_of r v = Some w \<and> length w = var_length v"
      by simp
  next
    fix x y i j
    assume x: "x \<in> set (variables cw)" and y: "y \<in> set (variables cw)"
      and ov: "x \<noteq> y \<and> overlaps cw (x, y) = Some (Some (i, j))"
    from compl x obtain wx where wx: "map_of r x = Some wx"
      by (blast dest: assignment_complete_lookup)
    from compl y obtain wy where wy: "map_of r y = Some wy"
      by (blast dest: assignment_complete_lookup)
    from x ov have "x \<in> set (neighbors cw y)" by (auto simp: neighbors_iff)
    from consistent_True(2)[OF cons' wy this wx]
    have "\<exists>p. overlaps cw (y, x) = Some (Some p)" by auto
    with y ov have "y \<in> set (neighbors cw x)" by (auto simp: neighbors_iff)
    from consistent_True(2)[OF cons' wx this wy] ov
    have "i < length wx \<and> j < length wy \<and> wx ! i = wy ! j" by auto
    with wx wy show "\<exists>wx wy. map_of r x = Some wx \<and> map_of r y = Some wy \<and>
               i < length wx \<and> j < length wy \<and> wx ! i = wy ! j" by blast
  qed
qed

theorem solve_complete_consistent_witness:
  "returned (solve two_slots) = Inr (Assignment [(slotA, ''cat''), (slotB, ''top'')]) \<and>
   (\<exists>wx wy. map_of [(slotA, ''cat''), (slotB, ''top'')] slotA = Some wx \<and>
      map_of [(slotA, ''cat''), (slotB, ''top'')] slotB = Some wy \<and>
      length wx = var_length slotA \<and> length wy = var_length slotB \<and>
      2 < length wx \<and> 0 < length wy \<and> wx ! 2 = wy ! 0)"
proof -
  from solve_two_slots obtain d' where
    run: "solve two_slots = Inr (Assignment [(slotA, ''cat''), (slotB, ''top'')], d')"
    by (auto simp: outcome_def split: sum.splits)
  show ?thesis
    using run solve_complete_consistent[OF run]
    by (simp add: returned_def two_slots_def slot_defs)
qed

section \<open>The domains only shrink\<close>

lemma shrinks_refl: "shrinks d d"
  by (auto simp: shrinks_def split: option.splits)

lemma shrinks_trans: "shrinks d2 d1 \<Longrightarrow> shrinks d1 d \<Longrightarrow> shrinks d2 d"
  unfolding shrinks_def
  apply (intro allI)
  subgoal for v
    apply (erule allE[of _ v])+
    apply (auto split: option.splits)
    done
  done

lemma revise_shrinks: "revise cw d x y = Inr (revised, d') \<Longrightarrow> shrinks d' d"
  by (auto simp: revise_def shrinks_def split: option.splits sum.splits if_splits)

lemma ac3_loop_shrinks: "ac3_loop cw d q = Inr (b, d') \<Longrightarrow> shrinks d' d"
proof (induction cw d q arbitrary: b d' rule: ac3_loop.induct)
  case (1 cw d)
  then show ?case by (simp add: shrinks_refl)
next
  case (2 cw d x y csp_queue)
  from "2.prems" obtain revised d1 where r: "revise cw d x y = Inr (revised, d1)"
    by (auto split: sum.splits)
  then have s1: "shrinks d1 d" by (rule revise_shrinks)
  show ?case
  proof (cases revised)
    case True
    show ?thesis
    proof (cases "d1 x")
      case None
      with "2.prems" r True show ?thesis by simp
    next
      case (Some dx)
      show ?thesis
      proof (cases "dx = []")
        case True
        with "2.prems" r \<open>revised\<close> Some s1 show ?thesis by simp
      next
        case False
        with "2.prems" r \<open>revised\<close> Some
        have "ac3_loop cw d1 (csp_queue @ map (\<lambda>z. (z, x)) (filter (\<lambda>z. z \<noteq> y) (neighbors cw x)))
               = Inr (b, d')" by simp
        from "2.IH"(1)[OF r refl \<open>revised\<close> Some False this] s1
        show ?thesis by (rule shrinks_trans)
      qed
    qed
  next
    case False
    with "2.prems" r have "ac3_loop cw d1 csp_queue = Inr (b, d')" by simp
    from "2.IH"(2)[OF r refl False this] s1 show ?thesis by (rule shrinks_trans)
  qed
qed

lemma ac3_shrinks: "ac3 cw d arcs = Inr (b, d') \<Longrightarrow> shrinks d' d"
  unfolding ac3_def by (rule ac3_loop_shrinks)

lemma backtrack_try_values_shrinks:
  "(backtrack cw d a = Inr (r, d') \<longrightarrow> shrinks d' d)"
  "(try_values cw d a var vals = Inr (r, d') \<longrightarrow> shrinks d' d)"
proof (induction cw d a and cw d a var vals arbitrary: r d' and r d' rule: backtrack_try_values.induct)
  case (1 cw d a)
  then show ?case
    by (auto simp: backtrack.simps[of cw d a] shrinks_refl split: sum.splits option.splits)
next
  case (2 cw d a var)
  then show ?case by (simp add: shrinks_refl)
next
  case (3 cw d a var val rest)
  show ?case
  proof
    assume run: "try_values cw d a var (val # rest) = Inr (r, d')"
    then obtain ok where ok: "consistent cw (AList.update var val a) = Inr ok"
      by (auto split: sum.splits)
    show "shrinks d' d"
    proof (cases ok)
      case False
      with run ok have "try_values cw d a var rest = Inr (r, d')" by simp
      with "3.IH"(4)[OF ok False] show ?thesis by simp
    next
      case True
      with run ok obtain inference d1 where
        ac: "ac3 cw d (Some (map (\<lambda>n. (var, n)) (neighbors cw var))) = Inr (inference, d1)"
        by (auto split: sum.splits)
      then have s1: "shrinks d1 d" by (rule ac3_shrinks)
      show ?thesis
      proof (cases inference)
        case False
        with run ok True ac have "try_values cw d1 a var rest = Inr (r, d')" by simp
        with "3.IH"(3)[OF ok True ac refl False] have "shrinks d' d1" by simp
        then show ?thesis using s1 by (rule shrinks_trans)
      next
        case inf: True
        with run ok True ac obtain res d2 where
          bt: "backtrack cw d1 (AList.update var val a) = Inr (res, d2)"
          by (auto split: sum.splits)
        have nf: "is_not_False res" by (cases res) auto
        with run ok True ac inf bt have "res = r" "d2 = d'" by auto
        with bt "3.IH"(1)[OF ok True ac refl inf] have "shrinks d' d1" by simp
        then show ?thesis using s1 by (rule shrinks_trans)
      qed
    qed
  qed
qed

section \<open>The work queue of \<open>ac3\<close>\<close>


lemma wf_overlap:
  assumes "wf_crossword cw" "x \<in> set (variables cw)" "y \<in> set (variables cw)" "x \<noteq> y"
  shows "(overlaps cw (x, y) = Some None \<and> overlaps cw (y, x) = Some None) \<or>
         (\<exists>i j. overlaps cw (x, y) = Some (Some (i, j)) \<and> overlaps cw (y, x) = Some (Some (j, i)) \<and>
            i < var_length x \<and> j < var_length y)"
proof -
  from assms have "case overlaps cw (x, y) of
           None \<Rightarrow> False
         | Some None \<Rightarrow> overlaps cw (y, x) = Some None
         | Some (Some (i, j)) \<Rightarrow>
             i < var_length x \<and> j < var_length y \<and> overlaps cw (y, x) = Some (Some (j, i))"
    unfolding wf_crossword_def by blast
  then show ?thesis by (auto split: option.splits)
qed

lemma store_ok_lookup:
  "store_ok cw d \<Longrightarrow> v \<in> set (variables cw) \<Longrightarrow>
   \<exists>dv. d v = Some dv \<and> (\<forall>w\<in>set dv. length w = var_length v)"
  by (auto simp: store_ok_def split: option.splits)

lemma store_ok_filter:
  "store_ok cw d \<Longrightarrow> d x = Some dx \<Longrightarrow> store_ok cw (d(x \<mapsto> filter P dx))"
  by (auto simp: store_ok_def split: option.splits)

text \<open>\<open>revise\<close> on an arc between two variables of a well-formed crossword.\<close>
lemma revise_wf:
  assumes wf: "wf_crossword cw" and ok: "store_ok cw d"
    and x: "x \<in> set (variables cw)" and y: "y \<in> set (variables cw)" and xy: "x \<noteq> y"
  shows "(overlaps cw (x, y) = Some None \<and> revise cw d x y = Inr (False, d)) \<or>
         (\<exists>i j dx dy. overlaps cw (x, y) = Some (Some (i, j)) \<and>
            overlaps cw (y, x) = Some (Some (j, i)) \<and> d x = Some dx \<and> d y = Some dy \<and>
            revise cw d x y =
              Inr (\<exists>w\<in>set dx. \<forall>w2\<in>set dy. w ! i \<noteq> w2 ! j,
                   d(x \<mapsto> filter (\<lambda>w. \<exists>w2\<in>set dy. w ! i = w2 ! j) dx)))"
proof -
  from wf_overlap[OF wf x y xy] show ?thesis
  proof
    assume "overlaps cw (x, y) = Some None \<and> overlaps cw (y, x) = Some None"
    then show ?thesis by (simp add: revise_def)
  next
    assume "\<exists>i j. overlaps cw (x, y) = Some (Some (i, j)) \<and>
        overlaps cw (y, x) = Some (Some (j, i)) \<and> i < var_length x \<and> j < var_length y"
    then obtain i j where ov: "overlaps cw (x, y) = Some (Some (i, j))"
      "overlaps cw (y, x) = Some (Some (j, i))" and ij: "i < var_length x" "j < var_length y"
      by blast
    from store_ok_lookup[OF ok x] obtain dx where
      dx: "d x = Some dx" "\<forall>w\<in>set dx. length w = var_length x" by blast
    from store_ok_lookup[OF ok y] obtain dy where
      dy: "d y = Some dy" "\<forall>w\<in>set dy. length w = var_length y" by blast
    have "revise cw d x y =
              Inr (\<exists>w\<in>set dx. \<forall>w2\<in>set dy. w ! i \<noteq> w2 ! j,
                   d(x \<mapsto> filter (\<lambda>w. \<exists>w2\<in>set dy. w ! i = w2 ! j) dx))"
      using ov(1) dx(1) dy(1) dx(2) dy(2) ij by (intro revise_in_range) auto
    with ov dx(1) dy(1) show ?thesis by blast
  qed
qed

text \<open>A consistent arc: every word of the first domain has a partner in the second.\<close>
lemma no_revision_support:
  assumes "overlaps cw (x, y) = Some (Some (i, j))" "d x = Some dx" "d y = Some dy"
    and "\<forall>w\<in>set dx. i < length w" "\<forall>w\<in>set dy. j < length w"
  shows "no_revision cw d x y \<longleftrightarrow> (\<forall>w\<in>set dx. \<exists>w2\<in>set dy. w ! i = w2 ! j)"
  using revise_in_range[OF assms] by (auto simp: no_revision_def)


lemma no_revision_wf:
  assumes wf: "wf_crossword cw" and ok: "store_ok cw d"
    and u: "u \<in> set (variables cw)" and v: "v \<in> set (neighbors cw u)"
  shows "\<exists>i j du dv. overlaps cw (u, v) = Some (Some (i, j)) \<and>
           overlaps cw (v, u) = Some (Some (j, i)) \<and> d u = Some du \<and> d v = Some dv \<and>
           (no_revision cw d u v \<longleftrightarrow> (\<forall>w\<in>set du. \<exists>w2\<in>set dv. w ! i = w2 ! j))"
proof -
  from v have v': "v \<in> set (variables cw)" "v \<noteq> u" and p: "\<exists>p. overlaps cw (v, u) = Some (Some p)"
    by (auto simp: neighbors_iff)
  from wf_overlap[OF wf u v'(1)] v'(2) p obtain i j where
    ov: "overlaps cw (u, v) = Some (Some (i, j))" "overlaps cw (v, u) = Some (Some (j, i))"
    and ij: "i < var_length u" "j < var_length v"
    by auto
  from store_ok_lookup[OF ok u] obtain du where
    du: "d u = Some du" "\<forall>w\<in>set du. length w = var_length u" by blast
  from store_ok_lookup[OF ok v'(1)] obtain dv where
    dv: "d v = Some dv" "\<forall>w\<in>set dv. length w = var_length v" by blast
  have "no_revision cw d u v \<longleftrightarrow> (\<forall>w\<in>set du. \<exists>w2\<in>set dv. w ! i = w2 ! j)"
    using ov(1) du(1) dv(1) du(2) dv(2) ij by (intro no_revision_support) auto
  with ov du(1) dv(1) show ?thesis by blast
qed

lemma pending_step:
  assumes wf: "wf_crossword cw" and ok: "store_ok cw d"
    and x: "x \<in> set (variables cw)" and y: "y \<in> set (variables cw)" and xy: "x \<noteq> y"
    and ov: "overlaps cw (x, y) = Some (Some (i, j))" "overlaps cw (y, x) = Some (Some (j, i))"
    and dx: "d x = Some dx" and dy: "d y = Some dy"
    and pend: "pending cw d ((x, y) # rest)"
  shows "pending cw (d(x \<mapsto> filter (\<lambda>w. \<exists>w2\<in>set dy. w ! i = w2 ! j) dx))
           (rest @ map (\<lambda>z. (z, x)) (filter (\<lambda>z. z \<noteq> y) (neighbors cw x)))"
  unfolding pending_def
proof (intro ballI)
  let ?P = "\<lambda>w. \<exists>w2\<in>set dy. w ! i = w2 ! j"
  let ?d1 = "d(x \<mapsto> filter ?P dx)"
  let ?q = "rest @ map (\<lambda>z. (z, x)) (filter (\<lambda>z. z \<noteq> y) (neighbors cw x))"
  fix u v assume u: "u \<in> set (variables cw)" and v: "v \<in> set (neighbors cw u)"
  have ok1: "store_ok cw ?d1" using ok dx by (rule store_ok_filter)
  from no_revision_wf[OF wf ok u v] obtain i' j' du dv where
    old: "overlaps cw (u, v) = Some (Some (i', j'))" "overlaps cw (v, u) = Some (Some (j', i'))"
      "d u = Some du" "d v = Some dv"
      "no_revision cw d u v \<longleftrightarrow> (\<forall>w\<in>set du. \<exists>w2\<in>set dv. w ! i' = w2 ! j')"
    by blast
  from no_revision_wf[OF wf ok1 u v] old(1) obtain du1 dv1 where
    new: "?d1 u = Some du1" "?d1 v = Some dv1"
      "no_revision cw ?d1 u v \<longleftrightarrow> (\<forall>w\<in>set du1. \<exists>w2\<in>set dv1. w ! i' = w2 ! j')"
    by auto
  from v have vu: "v \<noteq> u" "v \<in> set (variables cw)" by (auto simp: neighbors_iff)
  from pend u v have pend_uv: "(u, v) = (x, y) \<or> (u, v) \<in> set rest \<or> no_revision cw d u v"
    by (auto simp: pending_def)
  show "(u, v) \<in> set ?q \<or> no_revision cw ?d1 u v"
  proof (cases "(u, v) \<in> set ?q")
    case True
    then show ?thesis by simp
  next
    case notq: False
    then have notrest: "(u, v) \<notin> set rest" by simp
    have "no_revision cw ?d1 u v"
    proof (cases "u = x")
      case ux: True
      then have du1: "du1 = filter ?P dx" using new(1) by simp
      from ux vu have dv1: "dv1 = dv" using new(2) old(4) by simp
      show ?thesis
      proof (cases "v = y")
        case True
        with ux old(1) ov(1) have "i' = i" "j' = j" by auto
        moreover from True dv1 old(4) dy have "dv1 = dy" by simp
        ultimately show ?thesis using new(3) du1 by auto
      next
        case False
        with ux pend_uv notrest have "no_revision cw d u v" by auto
        with old(5) have "\<forall>w\<in>set du. \<exists>w2\<in>set dv. w ! i' = w2 ! j'" by simp
        moreover from ux old(3) dx have "du = dx" by simp
        ultimately show ?thesis using new(3) du1 dv1 by auto
      qed
    next
      case ux: False
      then have du1: "du1 = du" using new(1) old(3) by simp
      show ?thesis
      proof (cases "v = x")
        case vx: True
        have "u \<in> set (neighbors cw x)"
          using u ux old(1) vx by (auto simp: neighbors_iff)
        with notq vx have uy: "u = y" by auto
        with vx xy pend_uv notrest have "no_revision cw d u v" by auto
        with old(5) have sup: "\<forall>w\<in>set du. \<exists>w2\<in>set dv. w ! i' = w2 ! j'" by simp
        from uy vx old(1) ov(2) have ij': "i' = j" "j' = i" by auto
        from uy old(3) dy have duy: "du = dy" by simp
        from vx old(4) dx have dvx: "dv = dx" by simp
        from vx new(2) have dv1: "dv1 = filter ?P dx" by simp
        have "\<forall>w\<in>set du1. \<exists>w2\<in>set dv1. w ! i' = w2 ! j'"
        proof
          fix w assume w: "w \<in> set du1"
          with du1 duy have wdy: "w \<in> set dy" by simp
          with sup duy dvx ij' obtain w2 where w2: "w2 \<in> set dx" "w ! j = w2 ! i" by auto
          from wdy w2(2) have "?P w2" by (intro bexI[of _ w]) simp_all
          with w2 dv1 ij' show "\<exists>w2\<in>set dv1. w ! i' = w2 ! j'" by auto
        qed
        with new(3) show ?thesis by simp
      next
        case False
        then have dv1: "dv1 = dv" using new(2) old(4) by simp
        from ux pend_uv notrest have "no_revision cw d u v" by auto
        with old(5) new(3) du1 dv1 show ?thesis by simp
      qed
    qed
    then show ?thesis by simp
  qed
qed


lemma pending_Nil: "pending cw d [] \<longleftrightarrow> arc_consistent cw d"
  by (simp add: pending_def arc_consistent_def)

lemma ac3_loop_wf:
  "wf_crossword cw \<Longrightarrow> store_ok cw d \<Longrightarrow> arcs_ok cw q \<Longrightarrow>
   \<exists>b d'. ac3_loop cw d q = Inr (b, d') \<and> store_ok cw d' \<and>
      (b \<longrightarrow> (\<forall>v\<in>set (variables cw). d' v = Some [] \<longrightarrow> d v = Some [])) \<and>
      (\<not> b \<longrightarrow> (\<exists>v\<in>set (variables cw). d v \<noteq> Some [] \<and> d' v = Some [])) \<and>
      (b \<longrightarrow> pending cw d q \<longrightarrow> arc_consistent cw d')"
proof (induction cw d q rule: ac3_loop.induct)
  case (1 cw d)
  then show ?case by (auto simp: pending_Nil)
next
  case (2 cw d x y rest)
  from "2.prems"(3) have x: "x \<in> set (variables cw)" and y: "y \<in> set (variables cw)"
    and xy: "x \<noteq> y" and rest_ok: "arcs_ok cw rest"
    by (auto simp: arcs_ok_def)
  note wf = "2.prems"(1) and ok = "2.prems"(2)
  from revise_wf[OF wf ok x y xy] show ?case
  proof (elim disjE conjE exE)
    assume ov: "overlaps cw (x, y) = Some None" and rv: "revise cw d x y = Inr (False, d)"
    from "2.IH"(2)[OF rv refl _ wf ok rest_ok] obtain b d' where
      run: "ac3_loop cw d rest = Inr (b, d')" and ok': "store_ok cw d'"
      and t: "b \<longrightarrow> (\<forall>v\<in>set (variables cw). d' v = Some [] \<longrightarrow> d v = Some [])"
      and f: "\<not> b \<longrightarrow> (\<exists>v\<in>set (variables cw). d v \<noteq> Some [] \<and> d' v = Some [])"
      and ac: "b \<longrightarrow> pending cw d rest \<longrightarrow> arc_consistent cw d'"
      by blast
    have nr: "no_revision cw d x y" using rv by (simp add: no_revision_def)
    have "pending cw d ((x, y) # rest) \<Longrightarrow> pending cw d rest"
      using nr by (auto simp: pending_def)
    with run ok' t f ac rv show ?thesis by auto
  next
    fix i j dx dy
    assume ov: "overlaps cw (x, y) = Some (Some (i, j))" "overlaps cw (y, x) = Some (Some (j, i))"
      and dx: "d x = Some dx" and dy: "d y = Some dy"
      and rv: "revise cw d x y =
        Inr (\<exists>w\<in>set dx. \<forall>w2\<in>set dy. w ! i \<noteq> w2 ! j,
             d(x \<mapsto> filter (\<lambda>w. \<exists>w2\<in>set dy. w ! i = w2 ! j) dx))"
    let ?P = "\<lambda>w. \<exists>w2\<in>set dy. w ! i = w2 ! j"
    let ?d1 = "d(x \<mapsto> filter ?P dx)"
    show ?thesis
    proof (cases "\<exists>w\<in>set dx. \<forall>w2\<in>set dy. w ! i \<noteq> w2 ! j")
      case False
      with rv have rv': "revise cw d x y = Inr (False, ?d1)" by simp
      then have same: "?d1 = d" by (rule revise_False_same)
      with rv' have rv'': "revise cw d x y = Inr (False, d)" by simp
      from "2.IH"(2)[OF rv'' refl _ wf ok rest_ok] obtain b d' where
        run: "ac3_loop cw d rest = Inr (b, d')" and ok': "store_ok cw d'"
        and t: "b \<longrightarrow> (\<forall>v\<in>set (variables cw). d' v = Some [] \<longrightarrow> d v = Some [])"
        and f: "\<not> b \<longrightarrow> (\<exists>v\<in>set (variables cw). d v \<noteq> Some [] \<and> d' v = Some [])"
        and ac: "b \<longrightarrow> pending cw d rest \<longrightarrow> arc_consistent cw d'"
        by auto
      have nr: "no_revision cw d x y" using rv'' by (simp add: no_revision_def)
      have "pending cw d ((x, y) # rest) \<Longrightarrow> pending cw d rest"
        using nr by (auto simp: pending_def)
      with run ok' t f ac rv'' show ?thesis by auto
    next
      case True
      with rv have rv': "revise cw d x y = Inr (True, ?d1)" by simp
      have ok1: "store_ok cw ?d1" using ok dx by (rule store_ok_filter)
      from True have dxne: "dx \<noteq> []" by auto
      show ?thesis
      proof (cases "filter ?P dx = []")
        case empty: True
        then have "ac3_loop cw d ((x, y) # rest) = Inr (False, ?d1)"
          using rv' by simp
        moreover have "\<exists>v\<in>set (variables cw). d v \<noteq> Some [] \<and> ?d1 v = Some []"
          using x dx dxne empty by auto
        ultimately show ?thesis using ok1 by auto
      next
        case nonempty: False
        let ?q = "rest @ map (\<lambda>z. (z, x)) (filter (\<lambda>z. z \<noteq> y) (neighbors cw x))"
        have q_ok: "arcs_ok cw ?q"
          using rest_ok x by (auto simp: arcs_ok_def neighbors_iff)
        have d1x: "?d1 x = Some (filter ?P dx)" by simp
        from "2.IH"(1)[OF rv' refl _ d1x nonempty wf ok1 q_ok] obtain b d' where
          run: "ac3_loop cw ?d1 ?q = Inr (b, d')" and ok': "store_ok cw d'"
          and t: "b \<longrightarrow> (\<forall>v\<in>set (variables cw). d' v = Some [] \<longrightarrow> ?d1 v = Some [])"
          and f: "\<not> b \<longrightarrow> (\<exists>v\<in>set (variables cw). ?d1 v \<noteq> Some [] \<and> d' v = Some [])"
          and ac: "b \<longrightarrow> pending cw ?d1 ?q \<longrightarrow> arc_consistent cw d'"
          by blast
        have run': "ac3_loop cw d ((x, y) # rest) = Inr (b, d')"
          using rv' nonempty run by simp
        have t': "b \<longrightarrow> (\<forall>v\<in>set (variables cw). d' v = Some [] \<longrightarrow> d v = Some [])"
          using t nonempty by (auto split: if_splits)
        have f': "\<not> b \<longrightarrow> (\<exists>v\<in>set (variables cw). d v \<noteq> Some [] \<and> d' v = Some [])"
        proof
          assume "\<not> b"
          with f obtain v where v: "v \<in> set (variables cw)" "?d1 v \<noteq> Some []" "d' v = Some []"
            by blast
          have "d v \<noteq> Some []" using v(2) dx dxne by (cases "v = x") auto
          with v show "\<exists>v\<in>set (variables cw). d v \<noteq> Some [] \<and> d' v = Some []" by blast
        qed
        have ac': "b \<longrightarrow> pending cw d ((x, y) # rest) \<longrightarrow> arc_consistent cw d'"
          using ac pending_step[OF wf ok x y xy ov dx dy] by blast
        from run' ok' t' f' ac' show ?thesis by blast
      qed
    qed
  qed
qed

lemma all_arcs_ok: "arcs_ok cw (all_arcs cw)"
  by (auto simp: arcs_ok_def all_arcs_def neighbors_iff)

lemma pending_all_arcs: "pending cw d (all_arcs cw)"
  by (auto simp: pending_def all_arcs_def)

lemma wf_two_slots: "wf_crossword two_slots"
  by (simp add: wf_crossword_def two_slots_def slot_defs)

lemma wf_cat_dog: "wf_crossword cat_dog"
  by (simp add: wf_crossword_def cat_dog_def two_slots_def slot_defs)


lemma store_ok_node_consistent: "store_ok cw (node_consistent cw)"
  by (simp add: store_ok_def node_consistent_def)

lemma revise_True_nonempty:
  assumes "revise cw d x y = Inr (True, d1)"
  shows "d x \<noteq> Some [] \<and> (\<forall>z. z \<noteq> x \<longrightarrow> d1 z = d z)"
proof -
  from revise_True_dsize[OF assms]
  have lt: "dsize d1 x < dsize d x" and same: "\<forall>z. z \<noteq> x \<longrightarrow> d1 z = d z" by auto
  from lt have "dsize d x \<noteq> 0" by simp
  then have "d x \<noteq> Some []" by (auto simp: dsize_def)
  with same show ?thesis by simp
qed

lemma ac3_loop_result:
  "ac3_loop cw d q = Inr (b, d') \<Longrightarrow>
     (b \<longrightarrow> (\<forall>v. d' v = Some [] \<longrightarrow> d v = Some [])) \<and>
     (\<not> b \<longrightarrow> (\<exists>x. d x \<noteq> Some [] \<and> d' x = Some [] \<and>
                    (\<forall>v. v \<noteq> x \<longrightarrow> d' v = Some [] \<longrightarrow> d v = Some [])))"
proof (induction cw d q arbitrary: b d' rule: ac3_loop.induct)
  case (1 cw d)
  then show ?case by auto
next
  case (2 cw d x y csp_queue)
  from "2.prems" obtain revised d1 where r: "revise cw d x y = Inr (revised, d1)"
    by (auto split: sum.splits)
  show ?case
  proof (cases revised)
    case False
    with r have same: "d1 = d" by (auto dest: revise_False_same)
    from "2.prems" r False have "ac3_loop cw d1 csp_queue = Inr (b, d')" by simp
    from "2.IH"(2)[OF r refl False this] same show ?thesis by simp
  next
    case True
    with r have rT: "revise cw d x y = Inr (True, d1)" by simp
    from revise_True_nonempty[OF rT]
    have dx: "d x \<noteq> Some []" and same: "\<And>z. z \<noteq> x \<Longrightarrow> d1 z = d z" by auto
    show ?thesis
    proof (cases "d1 x")
      case None
      with "2.prems" r True show ?thesis by simp
    next
      case (Some dx1)
      show ?thesis
      proof (cases "dx1 = []")
        case empty: True
        with "2.prems" r True Some have res: "b = False" "d' = d1" by auto
        have "d x \<noteq> Some [] \<and> d1 x = Some [] \<and>
              (\<forall>v. v \<noteq> x \<longrightarrow> d1 v = Some [] \<longrightarrow> d v = Some [])"
          using dx Some empty same by auto
        with res show ?thesis by blast
      next
        case nonempty: False
        with "2.prems" r True Some
        have run: "ac3_loop cw d1 (csp_queue @ map (\<lambda>z. (z, x)) (filter (\<lambda>z. z \<noteq> y) (neighbors cw x)))
               = Inr (b, d')" by simp
        from "2.IH"(1)[OF r refl True Some nonempty run]
        have t: "b \<longrightarrow> (\<forall>v. d' v = Some [] \<longrightarrow> d1 v = Some [])"
          and f: "\<not> b \<longrightarrow> (\<exists>u. d1 u \<noteq> Some [] \<and> d' u = Some [] \<and>
                    (\<forall>v. v \<noteq> u \<longrightarrow> d' v = Some [] \<longrightarrow> d1 v = Some []))"
          by auto
        have d1x: "d1 x \<noteq> Some []" using Some nonempty by simp
        have lift: "d1 v = Some [] \<Longrightarrow> d v = Some []" for v
          using same[of v] d1x by (cases "v = x") auto
        have ne: "d1 u \<noteq> Some [] \<Longrightarrow> d u \<noteq> Some []" for u
          using same[of u] dx by (cases "u = x") auto
        have t': "b \<longrightarrow> (\<forall>v. d' v = Some [] \<longrightarrow> d v = Some [])"
          using t lift by blast
        have f': "\<not> b \<longrightarrow> (\<exists>u. d u \<noteq> Some [] \<and> d' u = Some [] \<and>
                    (\<forall>v. v \<noteq> u \<longrightarrow> d' v = Some [] \<longrightarrow> d v = Some []))"
        proof
          assume "\<not> b"
          with f obtain u where u: "d1 u \<noteq> Some []" "d' u = Some []"
            "\<forall>v. v \<noteq> u \<longrightarrow> d' v = Some [] \<longrightarrow> d1 v = Some []" by blast
          from u(1) have "d u \<noteq> Some []" by (rule ne)
          moreover from u(3) lift have "\<forall>v. v \<noteq> u \<longrightarrow> d' v = Some [] \<longrightarrow> d v = Some []"
            by blast
          ultimately show "\<exists>u. d u \<noteq> Some [] \<and> d' u = Some [] \<and>
                    (\<forall>v. v \<noteq> u \<longrightarrow> d' v = Some [] \<longrightarrow> d v = Some [])"
            using u(2) by blast
        qed
        from t' f' show ?thesis by blast
      qed
    qed
  qed
qed

lemma ac3_result_general:
  assumes "ac3 cw d arcs = Inr (b, d')"
  shows "shrinks d' d \<and> (b \<longleftrightarrow> (\<forall>v. d' v = Some [] \<longrightarrow> d v = Some [])) \<and>
         (\<not> b \<longrightarrow> (\<exists>!v. d v \<noteq> Some [] \<and> d' v = Some []))"
proof -
  let ?q = "case arcs of None \<Rightarrow> all_arcs cw | Some a \<Rightarrow> a"
  from assms have run: "ac3_loop cw d ?q = Inr (b, d')" by (simp add: ac3_def)
  from ac3_loop_result[OF run]
  have t: "b \<longrightarrow> (\<forall>v. d' v = Some [] \<longrightarrow> d v = Some [])"
    and f: "\<not> b \<longrightarrow> (\<exists>x. d x \<noteq> Some [] \<and> d' x = Some [] \<and>
                    (\<forall>v. v \<noteq> x \<longrightarrow> d' v = Some [] \<longrightarrow> d v = Some []))"
    by auto
  have "shrinks d' d" using run by (rule ac3_loop_shrinks)
  moreover have "b \<longleftrightarrow> (\<forall>v. d' v = Some [] \<longrightarrow> d v = Some [])"
    using t f by blast
  moreover have "\<not> b \<longrightarrow> (\<exists>!v. d v \<noteq> Some [] \<and> d' v = Some [])"
  proof
    assume "\<not> b"
    with f obtain x where x: "d x \<noteq> Some []" "d' x = Some []"
      "\<forall>v. v \<noteq> x \<longrightarrow> d' v = Some [] \<longrightarrow> d v = Some []" by blast
    show "\<exists>!v. d v \<noteq> Some [] \<and> d' v = Some []"
    proof (rule ex1I[of _ x])
      show "d x \<noteq> Some [] \<and> d' x = Some []" using x by simp
      fix v assume "d v \<noteq> Some [] \<and> d' v = Some []"
      with x(3) show "v = x" by blast
    qed
  qed
  ultimately show ?thesis by simp
qed

lemma ac3_steps:
  "ac3 cw d (Some []) = Inr (True, d)"
  "ac3 cw d None = ac3 cw d (Some (all_arcs cw))"
  "revise cw d x y = Inl e \<Longrightarrow> ac3 cw d (Some ((x, y) # q)) = Inl e"
  "revise cw d x y = Inr (False, d1) \<Longrightarrow> ac3 cw d (Some ((x, y) # q)) = ac3 cw d (Some q)"
  "revise cw d x y = Inr (True, d1) \<Longrightarrow> d1 x = Some [] \<Longrightarrow>
     ac3 cw d (Some ((x, y) # q)) = Inr (False, d1)"
  "revise cw d x y = Inr (True, d1) \<Longrightarrow> d1 x = Some dx \<Longrightarrow> dx \<noteq> [] \<Longrightarrow>
     ac3 cw d (Some ((x, y) # q)) =
       ac3 cw d1 (Some (q @ map (\<lambda>z. (z, x)) (filter (\<lambda>z. z \<noteq> y) (neighbors cw x))))"
  by (auto simp: ac3_def dest: revise_False_same)

lemma ac3_wf:
  assumes "wf_crossword cw" "store_ok cw d"
    and "case arcs of None \<Rightarrow> True | Some q \<Rightarrow> arcs_ok cw q"
  shows "\<exists>b d'. ac3 cw d arcs = Inr (b, d') \<and> store_ok cw d' \<and>
           (b \<longrightarrow> (case arcs of None \<Rightarrow> True | Some q \<Rightarrow> pending cw d q) \<longrightarrow>
              arc_consistent cw d')"
proof -
  let ?q = "case arcs of None \<Rightarrow> all_arcs cw | Some a \<Rightarrow> a"
  have q_ok: "arcs_ok cw ?q" using assms(3) by (auto simp: all_arcs_ok split: option.splits)
  from ac3_loop_wf[OF assms(1,2) q_ok] obtain b d' where
    run: "ac3_loop cw d ?q = Inr (b, d')" and ok: "store_ok cw d'"
    and ac: "b \<longrightarrow> pending cw d ?q \<longrightarrow> arc_consistent cw d'"
    by blast
  have "b \<longrightarrow> (case arcs of None \<Rightarrow> True | Some q \<Rightarrow> pending cw d q) \<longrightarrow>
              arc_consistent cw d'"
    using ac by (auto simp: pending_all_arcs split: option.splits)
  with run ok show ?thesis by (auto simp: ac3_def)
qed

text \<open>
  Claim C7. How \<open>ac3\<close> works through its queue, for every crossword, store and
  queue. An empty queue gives \<open>True\<close> and the store as it is; the default queue
  is that of all arcs. With \<open>(x, y)\<close> first in the queue: an error of \<open>revise\<close> is
  the error of \<open>ac3\<close>; when \<open>revise\<close> returns \<open>False\<close> the rest of the queue is
  processed; when it returns \<open>True\<close> and the domain of \<open>x\<close> is now empty, \<open>ac3\<close>
  returns \<open>False\<close> at once, with the store that revision left and the rest of
  the queue not looked at; when it returns \<open>True\<close> and the domain of \<open>x\<close> is not
  empty, \<open>ac3\<close> goes on with the rest of the queue followed by the arcs \<open>(z, x)\<close>
  for the neighbours \<open>z\<close> of \<open>x\<close> other than \<open>y\<close>.

  A call that returns has only shrunk domains; it returns \<open>True\<close> iff no domain
  that was not empty is empty afterwards, and when it returns \<open>False\<close> exactly
  one domain has become empty. On a well-formed crossword with a store of words
  of the right lengths \<open>ac3\<close> does return, and a \<open>True\<close> result leaves every arc
  consistent provided the arcs outside the initial queue were (always so for
  the default queue).
\<close>

theorem ac3_propagation:
  "ac3 cw d (Some []) = Inr (True, d) \<and>
   ac3 cw d None = ac3 cw d (Some (all_arcs cw)) \<and>
   (\<forall>e. revise cw d x y = Inl e \<longrightarrow> ac3 cw d (Some ((x, y) # q)) = Inl e) \<and>
   (\<forall>d1. revise cw d x y = Inr (False, d1) \<longrightarrow>
      ac3 cw d (Some ((x, y) # q)) = ac3 cw d (Some q)) \<and>
   (\<forall>d1. revise cw d x y = Inr (True, d1) \<and> d1 x = Some [] \<longrightarrow>
      ac3 cw d (Some ((x, y) # q)) = Inr (False, d1)) \<and>
   (\<forall>d1 dx. revise cw d x y = Inr (True, d1) \<and> d1 x = Some dx \<and> dx \<noteq> [] \<longrightarrow>
      ac3 cw d (Some ((x, y) # q)) =
        ac3 cw d1 (Some (q @ map (\<lambda>z. (z, x)) (filter (\<lambda>z. z \<noteq> y) (neighbors cw x))))) \<and>
   (\<forall>b d'. ac3 cw d arcs = Inr (b, d') \<longrightarrow>
      shrinks d' d \<and> (b \<longleftrightarrow> (\<forall>v. d' v = Some [] \<longrightarrow> d v = Some [])) \<and>
      (\<not> b \<longrightarrow> (\<exists>!v. d v \<noteq> Some [] \<and> d' v = Some []))) \<and>
   (wf_crossword cw \<and> store_ok cw d \<and> (case arcs of None \<Rightarrow> True | Some q \<Rightarrow> arcs_ok cw q) \<longrightarrow>
      (\<exists>b d'. ac3 cw d arcs = Inr (b, d') \<and> store_ok cw d' \<and>
         (b \<longrightarrow> (case arcs of None \<Rightarrow> True | Some q \<Rightarrow> pending cw d q) \<longrightarrow>
            arc_consistent cw d')))"
proof (intro conjI allI impI)
  show "ac3 cw d (Some []) = Inr (True, d)" by (rule ac3_steps(1))
  show "ac3 cw d None = ac3 cw d (Some (all_arcs cw))" by (rule ac3_steps(2))
  show "ac3 cw d (Some ((x, y) # q)) = Inl e" if "revise cw d x y = Inl e" for e
    using that by (rule ac3_steps(3))
  show "ac3 cw d (Some ((x, y) # q)) = ac3 cw d (Some q)"
    if "revise cw d x y = Inr (False, d1)" for d1
    using that by (rule ac3_steps(4))
  show "ac3 cw d (Some ((x, y) # q)) = Inr (False, d1)"
    if "revise cw d x y = Inr (True, d1) \<and> d1 x = Some []" for d1
    using that by (auto intro: ac3_steps(5))
  show "ac3 cw d (Some ((x, y) # q)) =
        ac3 cw d1 (Some (q @ map (\<lambda>z. (z, x)) (filter (\<lambda>z. z \<noteq> y) (neighbors cw x))))"
    if "revise cw d x y = Inr (True, d1) \<and> d1 x = Some dx \<and> dx \<noteq> []" for d1 dx
    using that by (auto intro: ac3_steps(6))
  show "shrinks d' d" if "ac3 cw d arcs = Inr (b, d')" for b d'
    using ac3_result_general[OF that] by simp
  show "b \<longleftrightarrow> (\<forall>v. d' v = Some [] \<longrightarrow> d v = Some [])"
    if "ac3 cw d arcs = Inr (b, d')" for b d'
    using ac3_result_general[OF that] by simp
  show "\<exists>!v. d v \<noteq> Some [] \<and> d' v = Some []"
    if "ac3 cw d arcs = Inr (b, d')" "\<not> b" for b d'
    using ac3_result_general[OF that(1)] that(2) by simp
  show "\<exists>b d'. ac3 cw d arcs = Inr (b, d') \<and> store_ok cw d' \<and>
         (b \<longrightarrow> (case arcs of None \<Rightarrow> True | Some q \<Rightarrow> pending cw d q) \<longrightarrow>
            arc_consistent cw d')"
    if "wf_crossword cw \<and> store_ok cw d \<and> (case arcs of None \<Rightarrow> True | Some q \<Rightarrow> arcs_ok cw q)"
    using that by (intro ac3_wf) auto
qed


theorem ac3_propagation_witness:
  "ac3 cat_dog (node_consistent cat_dog) (Some [(slotA, slotB), (slotB, slotA)])
     = Inr (False, (node_consistent cat_dog)(slotA \<mapsto> [])) \<and>
   ((node_consistent cat_dog)(slotA \<mapsto> [])) slotB = Some [''cat'', ''dog''] \<and>
   outcome two_slots (ac3 two_slots (node_consistent two_slots) None)
     = Inr (True, [Some [''cat''], Some [''top'']]) \<and>
   arc_consistent two_slots ((node_consistent two_slots)(slotA \<mapsto> [''cat''], slotB \<mapsto> [''top'']))"
proof -
  let ?d = "node_consistent cat_dog"
  have rv: "revise cat_dog ?d slotA slotB = Inr (True, ?d(slotA \<mapsto> [])) \<and>
            (?d(slotA \<mapsto> [])) slotA = Some []"
    by (simp add: revise_def getitem_def node_consistent_def cat_dog_def two_slots_def slot_defs)
  have fail: "ac3 cat_dog ?d (Some [(slotA, slotB), (slotB, slotA)]) = Inr (False, ?d(slotA \<mapsto> []))"
    using ac3_propagation[where cw = cat_dog and d = ?d and x = slotA and y = slotB
        and q = "[(slotB, slotA)]" and arcs = None] rv
    by blast
  let ?e = "node_consistent two_slots"
  have run: "ac3 two_slots ?e None = Inr (True, ?e(slotA \<mapsto> [''cat''], slotB \<mapsto> [''top'']))"
    by (simp add: solver_defs node_consistent_def two_slots_def slot_defs)
  have "arc_consistent two_slots (?e(slotA \<mapsto> [''cat''], slotB \<mapsto> [''top'']))"
    using ac3_propagation[where cw = two_slots and d = ?e and arcs = None and x = slotA
        and y = slotB and q = "[]"]
      wf_two_slots store_ok_node_consistent[of two_slots] run
    by auto
  with fail run show ?thesis
    by (simp add: outcome_def node_consistent_def cat_dog_def two_slots_def slot_defs)
qed

section \<open>The domains during the search\<close>





section \<open>\<open>solve\<close> returns\<close>

lemma assignment_ok_lookup:
  "assignment_ok cw a \<Longrightarrow> map_of a v = Some w \<Longrightarrow>
   v \<in> set (variables cw) \<and> length w = var_length v"
  by (auto simp: assignment_ok_def dest: map_of_SomeD)

lemma set_update_subset: "set (AList.update k v al) \<subseteq> insert (k, v) (set al)"
  by (induction al) auto

lemma assignment_ok_update:
  "assignment_ok cw a \<Longrightarrow> var \<in> set (variables cw) \<Longrightarrow> length val = var_length var \<Longrightarrow>
   assignment_ok cw (AList.update var val a)"
  using set_update_subset[of var val a] by (auto simp: assignment_ok_def)

lemma check_neighbors_total:
  assumes wf: "wf_crossword cw" and a: "assignment_ok cw a"
    and x: "var_x \<in> set (variables cw)" and len: "length word_x = var_length var_x"
  shows "set ns \<subseteq> set (neighbors cw var_x) \<Longrightarrow>
         \<exists>b. check_neighbors cw a var_x word_x ns = Inr b"
proof (induction ns)
  case Nil
  then show ?case by auto
next
  case (Cons var_y ns)
  then have IH: "\<exists>b. check_neighbors cw a var_x word_x ns = Inr b" by simp
  show ?case
  proof (cases "map_of a var_y")
    case None
    with IH show ?thesis by simp
  next
    case (Some word_y)
    from Cons.prems have y: "var_y \<in> set (variables cw)" "var_y \<noteq> var_x"
      "\<exists>p. overlaps cw (var_y, var_x) = Some (Some p)"
      by (auto simp: neighbors_iff)
    from wf_overlap[OF wf x y(1)] y(2,3) obtain i j where
      ov: "overlaps cw (var_x, var_y) = Some (Some (i, j))"
      and ij: "i < var_length var_x" "j < var_length var_y"
      by auto
    from assignment_ok_lookup[OF a Some] have "length word_y = var_length var_y" by simp
    with Some ov ij len IH show ?thesis by (auto simp: getitem_def)
  qed
qed

lemma consistent_loop_total:
  assumes wf: "wf_crossword cw" and a: "assignment_ok cw a"
  shows "set entries \<subseteq> set a \<Longrightarrow> \<exists>b. consistent_loop cw a entries = Inr b"
proof (induction entries)
  case Nil
  then show ?case by auto
next
  case (Cons e entries)
  obtain var_x word_x where e: "e = (var_x, word_x)" by (cases e)
  from Cons.prems e a have x: "var_x \<in> set (variables cw)" "length word_x = var_length var_x"
    by (auto simp: assignment_ok_def)
  from check_neighbors_total[OF wf a x, of "neighbors cw var_x"] obtain b where
    "check_neighbors cw a var_x word_x (neighbors cw var_x) = Inr b" by auto
  moreover from Cons have "\<exists>b. consistent_loop cw a entries = Inr b" by simp
  ultimately show ?case using e by auto
qed

lemma consistent_total:
  "wf_crossword cw \<Longrightarrow> assignment_ok cw a \<Longrightarrow> \<exists>b. consistent cw a = Inr b"
  unfolding consistent_def by (rule consistent_loop_total) auto

lemma count_word_n_total:
  "i < length word \<Longrightarrow> \<forall>w\<in>set dn. j < length w \<Longrightarrow> \<exists>c'. count_word_n word i j dn c = Inr c'"
  by (induction dn arbitrary: c) (auto simp: getitem_def)

lemma count_neighbors_total:
  assumes wf: "wf_crossword cw" and ok: "store_ok cw d"
    and var: "var \<in> set (variables cw)" and len: "length word = var_length var"
  shows "set ns \<subseteq> set (neighbors cw var) \<Longrightarrow> \<exists>c'. count_neighbors cw d var word ns c = Inr c'"
proof (induction ns arbitrary: c)
  case Nil
  then show ?case by simp
next
  case (Cons n ns)
  from Cons.prems have n: "n \<in> set (variables cw)" "n \<noteq> var"
    "\<exists>p. overlaps cw (n, var) = Some (Some p)"
    by (auto simp: neighbors_iff)
  from wf_overlap[OF wf var n(1)] n(2,3) obtain i j where
    ov: "overlaps cw (var, n) = Some (Some (i, j))"
    and ij: "i < var_length var" "j < var_length n"
    by auto
  from store_ok_lookup[OF ok n(1)] obtain dn where
    dn: "d n = Some dn" "\<forall>w\<in>set dn. length w = var_length n" by blast
  from count_word_n_total[of i word dn j c] ij len dn(2) obtain c1 where
    c1: "count_word_n word i j dn c = Inr c1" by auto
  from Cons.IH[of c1] Cons.prems obtain c' where
    "count_neighbors cw d var word ns c1 = Inr c'" by auto
  with ov dn(1) c1 show ?case by simp
qed

lemma value_heuristic_loop_total:
  assumes wf: "wf_crossword cw" and ok: "store_ok cw d"
    and var: "var \<in> set (variables cw)" and ns: "set ns \<subseteq> set (neighbors cw var)"
  shows "\<forall>w\<in>set ws. length w = var_length var \<Longrightarrow>
         \<exists>hs. value_heuristic_loop cw d var ns ws = Inr hs \<and> map fst hs = ws"
proof (induction ws)
  case Nil
  then show ?case by simp
next
  case (Cons word ws)
  from count_neighbors_total[OF wf ok var _ ns, of word 0] Cons.prems obtain c where
    "count_neighbors cw d var word ns 0 = Inr c" by auto
  moreover from Cons obtain hs where
    "value_heuristic_loop cw d var ns ws = Inr hs" "map fst hs = ws" by auto
  ultimately show ?case by simp
qed

lemma order_domain_values_total:
  assumes wf: "wf_crossword cw" and ok: "store_ok cw d" and var: "var \<in> set (variables cw)"
  shows "\<exists>vals. order_domain_values cw d var a = Inr vals \<and>
           (\<forall>w\<in>set vals. length w = var_length var)"
proof -
  from store_ok_lookup[OF ok var] obtain dv where
    dv: "d var = Some dv" "\<forall>w\<in>set dv. length w = var_length var" by blast
  let ?ns = "filter (\<lambda>n. n \<notin> fst ` set a) (neighbors cw var)"
  have "set ?ns \<subseteq> set (neighbors cw var)" by auto
  from value_heuristic_loop_total[OF wf ok var this dv(2)] obtain hs where
    hs: "value_heuristic_loop cw d var ?ns dv = Inr hs" "map fst hs = dv" by blast
  have "set (map fst (sort_key snd hs)) = set dv"
    using hs(2) by (metis set_map set_sort)
  with dv hs(1) show ?thesis by (auto simp: order_domain_values_def)
qed

lemma order_domain_values_empty:
  "d var = Some [] \<Longrightarrow> order_domain_values cw d var a = Inr []"
  by (simp add: order_domain_values_def)

lemma incomplete_unassigned:
  assumes wf: "wf_crossword cw" and a: "assignment_ok cw a"
    and inc: "\<not> assignment_complete cw a"
  shows "unassigned cw a \<noteq> []"
proof -
  from inc obtain v where v: "v \<in> set (variables cw)"
    and nv: "\<not> (case map_of a v of None \<Rightarrow> False | Some w \<Rightarrow> w \<noteq> [])"
    unfolding assignment_complete_def list_all_iff by blast
  from nv have m: "map_of a v = None \<or> map_of a v = Some []"
    by (cases "map_of a v") auto
  from wf v have pos: "0 < var_length v" by (auto simp: wf_crossword_def)
  have "map_of a v \<noteq> Some []"
  proof
    assume "map_of a v = Some []"
    from assignment_ok_lookup[OF a this] pos show False by simp
  qed
  with m have "map_of a v = None" by simp
  then have "v \<notin> fst ` set a" by (simp add: map_of_eq_None_iff)
  with v show ?thesis by (auto simp: unassigned_def filter_empty_conv)
qed

lemma arcs_ok_neighbors:
  "var \<in> set (variables cw) \<Longrightarrow> arcs_ok cw (map (\<lambda>n. (var, n)) (neighbors cw var))"
  by (auto simp: arcs_ok_def neighbors_iff)

lemma ac3_total:
  assumes "wf_crossword cw" "store_ok cw d" "arcs_ok cw q"
  shows "\<exists>b d'. ac3 cw d (Some q) = Inr (b, d') \<and> store_ok cw d'"
  using ac3_loop_wf[OF assms] by (auto simp: ac3_def)

lemma backtrack_try_values_total:
  "(wf_crossword cw \<longrightarrow> store_ok cw d \<longrightarrow> assignment_ok cw a \<longrightarrow>
      (\<exists>r d'. backtrack cw d a = Inr (r, d')))"
  "(wf_crossword cw \<longrightarrow> store_ok cw d \<longrightarrow> assignment_ok cw a \<longrightarrow>
      var \<in> set (variables cw) \<longrightarrow> (\<forall>w\<in>set vals. length w = var_length var) \<longrightarrow>
      (\<exists>r d'. try_values cw d a var vals = Inr (r, d')))"
proof (induction cw d a and cw d a var vals rule: backtrack_try_values.induct)
  case (1 cw d a)
  show ?case
  proof (intro impI)
    assume wf: "wf_crossword cw" and ok: "store_ok cw d" and a: "assignment_ok cw a"
    show "\<exists>r d'. backtrack cw d a = Inr (r, d')"
    proof (cases "assignment_complete cw a")
      case True
      then show ?thesis by (simp add: backtrack.simps[of cw d a])
    next
      case False
      have un: "unassigned cw a \<noteq> []" using wf a False by (rule incomplete_unassigned)
      have "\<forall>v\<in>set (unassigned cw a). d v \<noteq> None"
        using ok by (auto simp: unassigned_def dest: store_ok_lookup)
      from select_unassigned_variable_best[OF un this] obtain var where
        sel: "select_unassigned_variable cw d a = Inr (Some var)"
        and var: "var \<in> set (unassigned cw a)" by blast
      from var have var': "var \<in> set (variables cw)" by (simp add: unassigned_def)
      from order_domain_values_total[OF wf ok var'] obtain vals where
        ord: "order_domain_values cw d var a = Inr vals"
        and lens: "\<forall>w\<in>set vals. length w = var_length var" by blast
      from "1.IH"[OF False sel refl ord] wf ok a var' lens
      have "\<exists>r d'. try_values cw d a var vals = Inr (r, d')" by simp
      with False sel ord show ?thesis by (simp add: backtrack.simps[of cw d a])
    qed
  qed
next
  case (2 cw d a var)
  then show ?case by simp
next
  case (3 cw d a var val rest)
  show ?case
  proof (intro impI)
    assume wf: "wf_crossword cw" and ok: "store_ok cw d" and a: "assignment_ok cw a"
      and var: "var \<in> set (variables cw)"
      and lens: "\<forall>w\<in>set (val # rest). length w = var_length var"
    have a': "assignment_ok cw (AList.update var val a)"
      using a var lens by (intro assignment_ok_update) auto
    from consistent_total[OF wf a'] obtain okb where
      cons: "consistent cw (AList.update var val a) = Inr okb" by blast
    from lens have lens': "\<forall>w\<in>set rest. length w = var_length var" by simp
    show "\<exists>r d'. try_values cw d a var (val # rest) = Inr (r, d')"
    proof (cases okb)
      case False
      from "3.IH"(4)[OF cons False] wf ok a var lens'
      have "\<exists>r d'. try_values cw d a var rest = Inr (r, d')" by simp
      with cons False show ?thesis by simp
    next
      case True
      from ac3_total[OF wf ok arcs_ok_neighbors[OF var]] obtain inference d1 where
        ac: "ac3 cw d (Some (map (\<lambda>n. (var, n)) (neighbors cw var))) = Inr (inference, d1)"
        and ok1: "store_ok cw d1" by blast
      show ?thesis
      proof (cases inference)
        case False
        from "3.IH"(3)[OF cons True ac refl False] wf ok1 a var lens'
        have "\<exists>r d'. try_values cw d1 a var rest = Inr (r, d')" by simp
        with cons True ac False show ?thesis by simp
      next
        case inf: True
        from "3.IH"(1)[OF cons True ac refl inf] wf ok1 a'
        obtain res d2 where bt: "backtrack cw d1 (AList.update var val a) = Inr (res, d2)"
          by auto
        have "is_not_False res" by (cases res) auto
        with cons True ac inf bt show ?thesis by simp
      qed
    qed
  qed
qed

lemma backtrack_empty_domain:
  assumes all: "\<forall>v\<in>set (variables cw). d v \<noteq> None"
    and empty: "\<exists>v\<in>set (variables cw). d v = Some []"
  shows "backtrack cw d [] = Inr (NoneResult, d)"
proof -
  from empty obtain v where v: "v \<in> set (variables cw)" "d v = Some []" by blast
  have un: "unassigned cw [] = variables cw" by (simp add: unassigned_def)
  from v have inc: "\<not> assignment_complete cw []"
    by (auto simp: assignment_complete_def list_all_iff)
  from v un have ne: "unassigned cw [] \<noteq> []" by auto
  from select_unassigned_variable_best[OF ne, of d] all un obtain var where
    sel: "select_unassigned_variable cw d [] = Inr (Some var)"
    and var: "var \<in> set (variables cw)"
    and best: "\<forall>u\<in>set (variables cw). preferred cw d var u"
    by auto
  from best v have "dsize d var = 0" by (auto simp: preferred_def dsize_def)
  moreover from all var obtain dv where "d var = Some dv" by auto
  ultimately have "d var = Some []" by (simp add: dsize_def)
  then have "order_domain_values cw d var [] = Inr []" by (rule order_domain_values_empty)
  with inc sel show ?thesis by (simp add: backtrack.simps[of cw d "[]"])
qed

text \<open>
  Claim C9. On a well-formed crossword \<open>solve\<close> returns a value (an assignment
  or \<open>None\<close>) and raises nothing. When the \<open>ac3\<close> pass of \<open>solve\<close> reports
  failure, \<open>solve\<close> goes on and returns \<open>None\<close>. In general \<open>backtrack\<close> from
  the empty assignment on a store with an empty domain returns \<open>None\<close> and
  leaves the store as it is.
\<close>

theorem solve_never_raises:
  assumes wf: "wf_crossword cw"
  shows "(\<exists>r d'. solve cw = Inr (r, d')) \<and>
         (\<forall>d1 d2. enforce_node_consistency cw (init_domains cw) = Inr d1 \<and>
                  ac3 cw d1 None = Inr (False, d2) \<longrightarrow> solve cw = Inr (NoneResult, d2)) \<and>
         (\<forall>d. (\<forall>v\<in>set (variables cw). d v \<noteq> None) \<and> (\<exists>v\<in>set (variables cw). d v = Some []) \<longrightarrow>
              backtrack cw d [] = Inr (NoneResult, d))"
proof (intro conjI allI impI)
  from wf have dist: "distinct (variables cw)" "distinct (words cw)"
    by (auto simp: wf_crossword_def)
  have nc: "enforce_node_consistency cw (init_domains cw) = Inr (node_consistent cw)"
    using dist by (rule enforce_node_consistency_init)
  from ac3_loop_wf[OF wf store_ok_node_consistent all_arcs_ok] obtain b d2 where
    ac: "ac3 cw (node_consistent cw) None = Inr (b, d2)" and ok2: "store_ok cw d2"
    and f: "\<not> b \<longrightarrow> (\<exists>v\<in>set (variables cw). node_consistent cw v \<noteq> Some [] \<and> d2 v = Some [])"
    by (auto simp: ac3_def)
  have "assignment_ok cw []" by (simp add: assignment_ok_def)
  with backtrack_try_values_total(1)[of cw d2 "[]"] wf ok2
  obtain r d' where "backtrack cw d2 [] = Inr (r, d')" by blast
  with nc ac show "\<exists>r d'. solve cw = Inr (r, d')"
    by (simp add: solve_def solve_from_def)
  show "solve cw = Inr (NoneResult, d3)"
    if "enforce_node_consistency cw (init_domains cw) = Inr d1 \<and>
        ac3 cw d1 None = Inr (False, d3)" for d1 d3
  proof -
    from that nc ac have eq: "d1 = node_consistent cw" "b = False" "d3 = d2" by auto
    with f have "\<exists>v\<in>set (variables cw). d2 v = Some []" by blast
    moreover have "\<forall>v\<in>set (variables cw). d2 v \<noteq> None"
      using ok2 by (auto dest: store_ok_lookup)
    ultimately have "backtrack cw d2 [] = Inr (NoneResult, d2)"
      by (intro backtrack_empty_domain)
    with nc ac eq show ?thesis
      by (simp add: solve_def solve_from_def)
  qed
  show "backtrack cw d [] = Inr (NoneResult, d)"
    if "(\<forall>v\<in>set (variables cw). d v \<noteq> None) \<and> (\<exists>v\<in>set (variables cw). d v = Some [])"
    for d :: domains
    using that by (intro backtrack_empty_domain) auto
qed

theorem solve_never_raises_witness:
  "returned (ac3 cat_dog (node_consistent cat_dog) None) = Inr False \<and>
   outcome cat_dog (solve cat_dog) = Inr (NoneResult, [Some [], Some [''cat'', ''dog'']]) \<and>
   returned (solve two_slots) = Inr (Assignment [(slotA, ''cat''), (slotB, ''top'')])"
  using solve_never_raises[OF wf_cat_dog] solve_never_raises[OF wf_two_slots]
  by (simp add: solver_defs node_consistent_def cat_dog_def two_slots_def slot_defs)

section \<open>The store during a run of \<open>solve\<close>\<close>

text \<open>
  \<open>backtrack\<close> keeps no copy of the domains. Called directly on a store that
  is not arc consistent, as no run of \<open>solve\<close> does, it leaves the store
  changed: on the two slots with \<open>cat\<close> left for the first and \<open>dog\<close> for the
  second, propagation empties the first domain, and it is empty after the call
  has returned \<open>None\<close>.
\<close>

lemma backtrack_direct_call_changes_store:
  "outcome cat_dog (backtrack cat_dog cat_dog_store []) = Inr (NoneResult, [Some [], Some [''dog'']]) \<and>
   map cat_dog_store (variables cat_dog) = [Some [''cat''], Some [''dog'']]"
  by (simp add: solver_defs cat_dog_def cat_dog_store_def two_slots_def slot_defs)



end
